theory Spec2Isabelle
  imports Main "HOL-Library.Word"
begin

unbundle bit_operations_syntax

section \<open>Bytes, buffers and failures\<close>

text \<open>
  The program is one C++ file, \<^verbatim>\<open>mksqlite.cpp\<close>. Memory behind a \<^verbatim>\<open>char*\<close> is a list of
  bytes that starts at the pointer; a null pointer is \<open>None\<close>. An access that leaves the
  list is the outcome \<open>OUT_OF_BOUNDS\<close>: it is no message of the program, it marks the
  place where the C++ reads or writes outside its buffer. The other failures are the
  messages the program hands to \<^verbatim>\<open>FINALIZE\<close>.
\<close>

type_synonym byte = "8 word"

datatype error =
    MSG_INVALIDARG
  | MSG_UNEXPECTEDARG
  | MSG_MISSINGARG
  | MSG_MEMERROR
  | MSG_UNSUPPVARTYPE
  | MSG_UNSUPPTBH
  | MSG_BLOBTOOBIG
  | SQL_ERR
  | OUT_OF_BOUNDS

text \<open>The two texts that go to \<^verbatim>\<open>mexWarnMsgTxt\<close>: the call goes on after them.\<close>

datatype warning = MSG_MSGUNIQUEWARN | MSG_WARNDIFFARCH

text \<open>
  The global flags (lines 69 to 80), set by the commands of the same names, and the
  values they start with.
\<close>

record config =
  NULLasNaN :: bool
  check4uniquefields :: bool
  convertUTF8 :: bool
  use_typed_blobs :: bool

definition initial_config :: config where
  "initial_config =
     \<lparr>NULLasNaN = False, check4uniquefields = True, convertUTF8 = True, use_typed_blobs = False\<rparr>"

text \<open>\<^verbatim>\<open>*p = v\<close> with \<^verbatim>\<open>p = buffer + i\<close>; without a buffer the byte goes to a local.\<close>

definition poke :: "byte list option \<Rightarrow> nat \<Rightarrow> byte \<Rightarrow> error + byte list option" where
  "poke buffer i v =
     (case buffer of
        None \<Rightarrow> Inr None
      | Some b \<Rightarrow> if i < length b then Inr (Some (b[i := v])) else Inl OUT_OF_BOUNDS)"

section \<open>Charset codec\<close>

text \<open>
  \<^verbatim>\<open>utf2latin\<close> and \<^verbatim>\<open>latin2utf\<close> (lines 255 to 316). The counter \<^verbatim>\<open>cnt\<close> is a C
  \<^verbatim>\<open>int\<close>, here a 32-bit word read with \<open>sint\<close>. The byte expressions are computed in
  \<^verbatim>\<open>int\<close> after integer promotion and cut to \<^verbatim>\<open>unsigned char\<close> by the assignment.
\<close>

definition utf2latin_byte :: "byte \<Rightarrow> byte \<Rightarrow> byte" where
  "utf2latin_byte s0 s1 =
     ucast (push_bit 6 (ucast s0 :: 32 word) OR ((ucast s1 :: 32 word) AND 63))"

definition latin2utf_lead :: "byte \<Rightarrow> byte" where
  "latin2utf_lead c = ucast (128 + 64 + drop_bit 6 (ucast c :: 32 word))"

definition latin2utf_cont :: "byte \<Rightarrow> byte" where
  "latin2utf_cont c = ucast (128 + ((ucast c :: 32 word) AND 63))"

text \<open>
  The \<^verbatim>\<open>while( *s )\<close> loop of \<^verbatim>\<open>utf2latin\<close>. The state is the rest of the input, the
  buffer, the index of \<^verbatim>\<open>p\<close> in it and \<^verbatim>\<open>cnt\<close>. A byte of 128 or more reads \<^verbatim>\<open>s[1]\<close>
  and moves two bytes on, whatever \<^verbatim>\<open>s[1]\<close> is.
\<close>

fun utf2latin_while ::
  "byte list \<Rightarrow> byte list option \<Rightarrow> nat \<Rightarrow> 32 word \<Rightarrow> error + (byte list option \<times> nat \<times> 32 word)"
where
  "utf2latin_while [] buffer p cnt = Inl OUT_OF_BOUNDS"
| "utf2latin_while [c] buffer p cnt =
     (if c = 0 then Inr (buffer, p, cnt)
      else if c < 128 then
        (case poke buffer p c of
           Inl e \<Rightarrow> Inl e
         | Inr b \<Rightarrow> utf2latin_while [] b (if buffer = None then p else p + 1) (cnt + 1))
      else Inl OUT_OF_BOUNDS)"
| "utf2latin_while (c # d # s) buffer p cnt =
     (if c = 0 then Inr (buffer, p, cnt)
      else if c < 128 then
        (case poke buffer p c of
           Inl e \<Rightarrow> Inl e
         | Inr b \<Rightarrow> utf2latin_while (d # s) b (if buffer = None then p else p + 1) (cnt + 1))
      else
        (case poke buffer p (utf2latin_byte c d) of
           Inl e \<Rightarrow> Inl e
         | Inr b \<Rightarrow> utf2latin_while s b (if buffer = None then p else p + 1) (cnt + 1)))"

definition utf2latin :: "byte list option \<Rightarrow> byte list option \<Rightarrow> error + (32 word \<times> byte list option)" where
  "utf2latin s buffer =
     (case s of
        None \<Rightarrow> Inr (0, buffer)
      | Some mem \<Rightarrow>
          (case utf2latin_while mem buffer 0 0 of
             Inl e \<Rightarrow> Inl e
           | Inr (b, p, cnt) \<Rightarrow>
               (case poke b p 0 of
                  Inl e \<Rightarrow> Inl e
                | Inr b' \<Rightarrow> Inr (cnt + 1, b'))))"

text \<open>
  The loop of \<^verbatim>\<open>latin2utf\<close>. With a buffer \<^verbatim>\<open>p\<close> moves on after every byte written;
  without one it is set back to the two-byte local after every round.
\<close>

fun latin2utf_while ::
  "byte list \<Rightarrow> byte list option \<Rightarrow> nat \<Rightarrow> 32 word \<Rightarrow> error + (byte list option \<times> nat \<times> 32 word)"
where
  "latin2utf_while [] buffer p cnt = Inl OUT_OF_BOUNDS"
| "latin2utf_while (c # s) buffer p cnt =
     (if c = 0 then Inr (buffer, p, cnt)
      else if c < 128 then
        (case poke buffer p c of
           Inl e \<Rightarrow> Inl e
         | Inr b \<Rightarrow> latin2utf_while s b (if buffer = None then 0 else p + 1) (cnt + 1))
      else
        (case poke buffer p (latin2utf_lead c) of
           Inl e \<Rightarrow> Inl e
         | Inr b \<Rightarrow>
             (case poke b (p + 1) (latin2utf_cont c) of
                Inl e \<Rightarrow> Inl e
              | Inr b' \<Rightarrow> latin2utf_while s b' (if buffer = None then 0 else p + 2) (cnt + 2))))"

definition latin2utf :: "byte list option \<Rightarrow> byte list option \<Rightarrow> error + (32 word \<times> byte list option)" where
  "latin2utf s buffer =
     (case s of
        None \<Rightarrow> Inr (0, buffer)
      | Some mem \<Rightarrow>
          (case latin2utf_while mem buffer 0 0 of
             Inl e \<Rightarrow> Inl e
           | Inr (b, p, cnt) \<Rightarrow>
               (case poke b p 0 of
                  Inl e \<Rightarrow> Inl e
                | Inr b' \<Rightarrow> Inr (cnt + 1, b'))))"

text \<open>
  \<^verbatim>\<open>strnewdup\<close> (lines 321 to 350) is the two-pass caller of \<^verbatim>\<open>utf2latin\<close>: measure,
  \<^verbatim>\<open>new char [buflen]\<close>, fill. The new array holds whatever the heap held: its cells
  are the values of \<open>junk\<close>. Without conversion the string is copied up to and with
  its terminator (\<^verbatim>\<open>strlen\<close>, \<^verbatim>\<open>strcpy\<close>).
\<close>

definition new_char :: "(nat \<Rightarrow> byte) \<Rightarrow> nat \<Rightarrow> byte list" where
  "new_char junk n = map junk [0..<n]"

fun strlen :: "byte list \<Rightarrow> nat option" where
  "strlen [] = None"
| "strlen (c # s) = (if c = 0 then Some 0 else map_option Suc (strlen s))"

definition strnewdup :: "bool \<Rightarrow> (nat \<Rightarrow> byte) \<Rightarrow> byte list option \<Rightarrow> error + byte list option" where
  "strnewdup convert junk s =
     (case s of
        None \<Rightarrow> Inr None
      | Some mem \<Rightarrow>
          if convert then
            (case utf2latin s None of
               Inl e \<Rightarrow> Inl e
             | Inr (buflen, _) \<Rightarrow>
                 (case utf2latin s (Some (new_char junk (nat (sint buflen)))) of
                    Inl e \<Rightarrow> Inl e
                  | Inr (_, newstr) \<Rightarrow> Inr newstr))
          else
            (case strlen mem of
               None \<Rightarrow> Inl OUT_OF_BOUNDS
             | Some n \<Rightarrow> Inr (Some (take (n + 1) mem))))"

text \<open>
  The codec in the words of the specification, for comparison with the loops above:
  a byte below 128 stands for itself, a byte \<open>b\<close> of 128 or more becomes the two bytes
  \<open>128 + 64 + (b >> 6)\<close> and \<open>128 + (b & 63)\<close>, and a pair \<open>(lead, cont)\<close> becomes the byte
  \<open>(lead << 6) | (cont & 63)\<close>. \<open>utf_pairs\<close> holds when no byte of 128 or more is the
  last one.
\<close>

definition latin2utf_bytes :: "byte list \<Rightarrow> byte list" where
  "latin2utf_bytes x =
     concat (map (\<lambda>b. if b < 128 then [b] else [128 + 64 + drop_bit 6 b, 128 + (b AND 63)]) x)"

fun utf2latin_bytes :: "byte list \<Rightarrow> byte list" where
  "utf2latin_bytes [] = []"
| "utf2latin_bytes [c] = [c]"
| "utf2latin_bytes (lead # cont # u) =
     (if lead < 128 then lead # utf2latin_bytes (cont # u)
      else (push_bit 6 lead OR (cont AND 63)) # utf2latin_bytes u)"

fun utf_pairs :: "byte list \<Rightarrow> bool" where
  "utf_pairs [] = True"
| "utf_pairs [c] = (c < 128)"
| "utf_pairs (lead # cont # u) = (if lead < 128 then utf_pairs (cont # u) else utf_pairs u)"

section \<open>Field names of a result\<close>

text \<open>
  Lines 1140 to 1213. A column name is a C string, here the \<open>string\<close> of its characters
  before the terminator, so that \<^verbatim>\<open>strcmp\<close> giving 0 is equality. \<^verbatim>\<open>isalnum\<close> comes
  from the C library and is read in the C locale: the ASCII digits and letters.
\<close>

definition isalnum :: "char \<Rightarrow> bool" where
  "isalnum c =
     (let n = (of_char c :: nat)
      in (48 \<le> n \<and> n \<le> 57) \<or> (65 \<le> n \<and> n \<le> 90) \<or> (97 \<le> n \<and> n \<le> 122))"

text \<open>The \<^verbatim>\<open>while ( *mk_c )\<close> loop over one name, and the \<^verbatim>\<open>iCol\<close> loop over the columns.\<close>

fun replace_invalid_chars :: "string \<Rightarrow> string" where
  "replace_invalid_chars [] = []"
| "replace_invalid_chars (c # mk_c) =
     (if \<not> isalnum c then CHR ''_'' else c) # replace_invalid_chars mk_c"

fun get_column_names :: "string list \<Rightarrow> string list" where
  "get_column_names [] = []"
| "get_column_names (cname # cnames) = replace_invalid_chars cname # get_column_names cnames"

text \<open>\<^verbatim>\<open>sprintf(newcolumnname, "%s_%d", fieldnames[jCol], k)\<close>.\<close>

definition digit_char :: "nat \<Rightarrow> char" where
  "digit_char d = ''0123456789'' ! d"

fun sprintf_d :: "nat \<Rightarrow> string" where
  "sprintf_d k = (if k < 10 then [digit_char k] else sprintf_d (k div 10) @ [digit_char (k mod 10)])"

definition sprintf_s_d :: "string \<Rightarrow> nat \<Rightarrow> string" where
  "sprintf_s_d s k = s @ ''_'' @ sprintf_d k"

text \<open>The \<^verbatim>\<open>lCol\<close> loop: \<^verbatim>\<open>unique\<close> stays true when no current name equals the new one.\<close>

fun is_unique :: "string list \<Rightarrow> string \<Rightarrow> bool" where
  "is_unique [] newcolumnname = True"
| "is_unique (fieldname # fieldnames) newcolumnname =
     (if fieldname = newcolumnname then False else is_unique fieldnames newcolumnname)"

text \<open>The \<^verbatim>\<open>k\<close> loop from \<open>k\<close> on; its value is \<^verbatim>\<open>k\<close> after the loop, 100 when no name was unique.\<close>

function find_suffix :: "string list \<Rightarrow> string \<Rightarrow> nat \<Rightarrow> nat" where
  "find_suffix fieldnames name k =
     (if k < 100 then
        (if is_unique fieldnames (sprintf_s_d name k) then k
         else find_suffix fieldnames name (k + 1))
      else k)"
  by pat_completeness auto
termination
  by (relation "measure (\<lambda>(fieldnames, name, k). 100 - k)") auto

declare find_suffix.simps [simp del]

text \<open>The body of \<^verbatim>\<open>if (! strcmp(fieldnames[iCol], fieldnames[jCol]))\<close>.\<close>

definition rename_duplicate :: "string list \<Rightarrow> nat \<Rightarrow> string list \<times> warning list" where
  "rename_duplicate fieldnames jCol =
     (let k = find_suffix fieldnames (fieldnames ! jCol) 1
      in if k = 100 then (fieldnames, [MSG_MSGUNIQUEWARN])
         else (fieldnames[jCol := sprintf_s_d (fieldnames ! jCol) k], []))"

text \<open>The \<^verbatim>\<open>jCol\<close> loop from \<open>jCol\<close> on and the \<^verbatim>\<open>iCol\<close> loop from \<open>iCol\<close> on.\<close>

function check_jCol ::
  "nat \<Rightarrow> nat \<Rightarrow> nat \<Rightarrow> string list \<Rightarrow> warning list \<Rightarrow> string list \<times> warning list"
where
  "check_jCol ncol iCol jCol fieldnames warnings =
     (if jCol < ncol then
        (if fieldnames ! iCol = fieldnames ! jCol then
           (case rename_duplicate fieldnames jCol of
              (fieldnames', w) \<Rightarrow> check_jCol ncol iCol (jCol + 1) fieldnames' (warnings @ w))
         else check_jCol ncol iCol (jCol + 1) fieldnames warnings)
      else (fieldnames, warnings))"
  by pat_completeness auto
termination
  by (relation "measure (\<lambda>(ncol, iCol, jCol, fieldnames, warnings). ncol - jCol)") auto

declare check_jCol.simps [simp del]

function check_iCol ::
  "nat \<Rightarrow> nat \<Rightarrow> string list \<Rightarrow> warning list \<Rightarrow> string list \<times> warning list"
where
  "check_iCol ncol iCol fieldnames warnings =
     (if iCol + 1 < ncol then
        (case check_jCol ncol iCol (iCol + 1) fieldnames warnings of
           (fieldnames', warnings') \<Rightarrow> check_iCol ncol (iCol + 1) fieldnames' warnings')
      else (fieldnames, warnings))"
  by pat_completeness auto
termination
  by (relation "measure (\<lambda>(ncol, iCol, fieldnames, warnings). ncol - iCol)") auto

declare check_iCol.simps [simp del]

text \<open>
  The names given to \<^verbatim>\<open>mxCreateStructArray\<close> for the columns \<open>cnames\<close> of the statement,
  with the warnings raised on the way.
\<close>

definition fieldnames_of_result :: "config \<Rightarrow> string list \<Rightarrow> string list \<times> warning list" where
  "fieldnames_of_result cfg cnames =
     (let ncol = length cnames; fieldnames = get_column_names cnames
      in if check4uniquefields cfg then check_iCol ncol 0 fieldnames []
         else (fieldnames, []))"

text \<open>
  The command \<^verbatim>\<open>check4uniquefields\<close> with one numeric argument (line 848); \<open>v\<close> is what
  \<^verbatim>\<open>getinteger\<close> reads from it.
\<close>

definition set_check4uniquefields :: "config \<Rightarrow> int \<Rightarrow> config" where
  "set_check4uniquefields cfg v = cfg\<lparr>check4uniquefields := (if v \<noteq> 0 then True else False)\<rparr>"

section \<open>Host values and the engine\<close>

text \<open>
  Modelled from the spec: the enumeration \<^verbatim>\<open>mxClassID\<close> is declared in the host's
  \<^verbatim>\<open>mex.h\<close>, which is not among the sources. The element type ids of the spec and the
  classes the source names are its members; the number of a class is its place in the
  enumeration, as a C compiler gives it. The header of a typed BLOB stores that number
  (line 1044) and the reader casts it back (line 1367).
\<close>

datatype mxClassID =
    mxUNKNOWN_CLASS | mxCELL_CLASS | mxSTRUCT_CLASS | mxLOGICAL_CLASS | mxCHAR_CLASS
  | mxVOID_CLASS | mxDOUBLE_CLASS | mxSINGLE_CLASS | mxINT8_CLASS | mxUINT8_CLASS
  | mxINT16_CLASS | mxUINT16_CLASS | mxINT32_CLASS | mxUINT32_CLASS | mxINT64_CLASS
  | mxUINT64_CLASS | mxFUNCTION_CLASS | mxOPAQUE_CLASS | mxOBJECT_CLASS

definition mxClassID_values :: "mxClassID list" where
  "mxClassID_values =
     [mxUNKNOWN_CLASS, mxCELL_CLASS, mxSTRUCT_CLASS, mxLOGICAL_CLASS, mxCHAR_CLASS,
      mxVOID_CLASS, mxDOUBLE_CLASS, mxSINGLE_CLASS, mxINT8_CLASS, mxUINT8_CLASS,
      mxINT16_CLASS, mxUINT16_CLASS, mxINT32_CLASS, mxUINT32_CLASS, mxINT64_CLASS,
      mxUINT64_CLASS, mxFUNCTION_CLASS, mxOPAQUE_CLASS, mxOBJECT_CLASS]"

fun index_of :: "'a \<Rightarrow> 'a list \<Rightarrow> nat" where
  "index_of x [] = 0"
| "index_of x (y # ys) = (if x = y then 0 else Suc (index_of x ys))"

definition int32_of_mxClassID :: "mxClassID \<Rightarrow> 32 word" where
  "int32_of_mxClassID c = of_nat (index_of c mxClassID_values)"

definition mxClassID_of_int32 :: "32 word \<Rightarrow> mxClassID option" where
  "mxClassID_of_int32 w =
     (if unat w < length mxClassID_values then Some (mxClassID_values ! unat w) else None)"

text \<open>
  A host array as the program sees it through the host's access functions: its class,
  its dimensions, whether it is complex, its data bytes, the C string
  \<^verbatim>\<open>mxArrayToString\<close> makes of it (\<open>None\<close> for a null pointer) and, for a cell array,
  its cells (\<open>None\<close> for a cell that was never set).
\<close>

datatype mxArray =
  MxArray (mxGetClassID: mxClassID) (mxGetDimensions: "nat list") (mxIsComplex: bool)
    (mxGetData: "byte list") (mxArrayToString: "byte list option")
    (mxCells: "mxArray option list")

definition mxGetNumberOfElements :: "mxArray \<Rightarrow> nat" where
  "mxGetNumberOfElements a = prod_list (mxGetDimensions a)"

definition mxIsEmpty :: "mxArray \<Rightarrow> bool" where
  "mxIsEmpty a = (mxGetNumberOfElements a = 0)"

definition mxIsCell :: "mxArray \<Rightarrow> bool" where
  "mxIsCell a = (mxGetClassID a = mxCELL_CLASS)"

definition mxIsStruct :: "mxArray \<Rightarrow> bool" where
  "mxIsStruct a = (mxGetClassID a = mxSTRUCT_CLASS)"

definition mxGetCell :: "mxArray option list \<Rightarrow> nat \<Rightarrow> mxArray option" where
  "mxGetCell cells i = (if i < length cells then cells ! i else None)"

definition mxCreateLogicalMatrix_0_0 :: mxArray where
  "mxCreateLogicalMatrix_0_0 = MxArray mxLOGICAL_CLASS [0, 0] False [] None []"

text \<open>
  Floating point is not computed here. \<^verbatim>\<open>mxGetScalar(item)\<close> is the \<^verbatim>\<open>double\<close> the host
  reads from the first element of the data of that class, kept as that term, and
  \<^verbatim>\<open>(int)\<close> of it is the term \<open>Int_of_double\<close> of it.
\<close>

datatype c_double = Double_of_first_element mxClassID "byte list"

datatype c_int = Int_of_double c_double

definition mxGetScalar :: "mxArray \<Rightarrow> c_double" where
  "mxGetScalar a = Double_of_first_element (mxGetClassID a) (mxGetData a)"

text \<open>
  The calls to the engine that bind a value to a slot. The last argument of
  \<^verbatim>\<open>sqlite3_bind_blob\<close> says who owns the bytes: the engine copies them
  (\<^verbatim>\<open>SQLITE_TRANSIENT\<close>) or takes them over and frees them with \<^verbatim>\<open>sqlite3_free\<close>.
  A slot no call names stays unbound, which the engine reads as SQL NULL.
\<close>

datatype destructor = SQLITE_TRANSIENT | sqlite3_free

datatype bind_call =
    sqlite3_bind_blob nat "byte list" destructor
  | sqlite3_bind_int nat c_int
  | sqlite3_bind_double nat c_double
  | sqlite3_bind_text nat "byte list option"

fun slot_of :: "bind_call \<Rightarrow> nat" where
  "slot_of (sqlite3_bind_blob i b d) = i"
| "slot_of (sqlite3_bind_int i v) = i"
| "slot_of (sqlite3_bind_double i v) = i"
| "slot_of (sqlite3_bind_text i s) = i"

text \<open>
  What the program takes from the host and from the engine and does not compute
  itself: the platform name and the endianness letter that \<^verbatim>\<open>computer\<close> reported
  (\<^verbatim>\<open>g_platform\<close>, \<^verbatim>\<open>g_endian[0]\<close>), the byte order in which the machine stores an
  integer, the size of one element of a class, whether an allocation returns memory,
  the bytes found in memory that was allocated and not yet written, the number of
  elements of the array \<^verbatim>\<open>mxCreateNumericArray\<close> makes (\<open>None\<close> for a null pointer),
  and whether the engine answers a bind call with \<^verbatim>\<open>SQLITE_OK\<close>.
\<close>

record host =
  g_platform :: "byte list"
  g_endian :: byte
  big_endian :: bool
  mxGetElementSize :: "mxClassID \<Rightarrow> nat"
  sqlite3_malloc :: "nat \<Rightarrow> bool"
  mxCalloc :: "nat \<Rightarrow> bool"
  mxCreateCellMatrix :: "nat \<Rightarrow> bool"
  mxDuplicateArray :: "mxArray \<Rightarrow> bool"
  uninitialised :: "nat \<Rightarrow> byte"
  mxCreateNumericArray :: "32 word \<Rightarrow> 32 word list \<Rightarrow> mxClassID \<Rightarrow> nat option"
  sqlite3_bind :: "bind_call \<Rightarrow> bool"

text \<open>
  A host to run the definitions on: a little-endian PC that reports \<open>PCWIN\<close> and \<open>L\<close>,
  with the element sizes of the host's numeric classes, on which every allocation
  returns memory that holds the byte 205, \<^verbatim>\<open>mxCreateNumericArray\<close> makes an array of as
  many elements as the product of the sizes says, and the engine accepts every call.
\<close>

definition pcwin :: host where
  "pcwin =
     \<lparr>g_platform = [80, 67, 87, 73, 78, 0, 0, 0, 0, 0, 0],
      g_endian = 76,
      big_endian = False,
      mxGetElementSize =
        (\<lambda>c. if c \<in> {mxLOGICAL_CLASS, mxINT8_CLASS, mxUINT8_CLASS} then 1
             else if c \<in> {mxCHAR_CLASS, mxINT16_CLASS, mxUINT16_CLASS} then 2
             else if c \<in> {mxSINGLE_CLASS, mxINT32_CLASS, mxUINT32_CLASS} then 4
             else 8),
      sqlite3_malloc = (\<lambda>n. True),
      mxCalloc = (\<lambda>n. True),
      mxCreateCellMatrix = (\<lambda>n. True),
      mxDuplicateArray = (\<lambda>a. True),
      uninitialised = (\<lambda>i. 205),
      mxCreateNumericArray = (\<lambda>ndim dims c. Some (prod_list (map unat dims))),
      sqlite3_bind = (\<lambda>c. True)\<rparr>"

section \<open>Typed BLOBs\<close>

text \<open>
  The header \<^verbatim>\<open>typed_BLOB_header\<close> (lines 86 to 96) with every member at its natural
  alignment: \<^verbatim>\<open>magic\<close> at 0 (13 bytes), one byte of padding, \<^verbatim>\<open>ver\<close> at 14,
  \<^verbatim>\<open>clsid\<close> at 16, \<^verbatim>\<open>platform\<close> at 20 (11 bytes), \<^verbatim>\<open>endian\<close> at 31, \<^verbatim>\<open>sizeDims\<close> at 32;
  the size of the structure is 36. \<^verbatim>\<open>mwSize\<close> is \<^verbatim>\<open>int\<close>: the assertion of line 61 gives
  it four bytes, and the source hands arrays of \<^verbatim>\<open>int\<close> and of \<^verbatim>\<open>int32_t\<close> to parameters
  of type \<^verbatim>\<open>const mwSize*\<close> (lines 1310 to 1316, 1346 to 1348, 1371 and 1407). A value
  of type \<^verbatim>\<open>mwSize\<close> or \<^verbatim>\<open>int32_t\<close> is a word of 32 bits: a conversion to it keeps the low
  32 bits, sums wrap, and comparisons read the word with its sign (\<open>sint\<close>). \<^verbatim>\<open>size_t\<close> is
  the type of the platform for the size of an object in memory; the arrays of the host
  are in memory, so a product of their number of elements and element size is taken
  as the number it is.
\<close>

definition TBH_MAGIC :: "byte list" where
  "TBH_MAGIC = map (\<lambda>c. of_nat (of_char c)) ''mkSQLite.tbh'' @ [0]"

text \<open>\<^verbatim>\<open>strlen( TBH_MAGIC )\<close>: the number of bytes before the first zero byte.\<close>

definition strlen_TBH_MAGIC :: nat where
  "strlen_TBH_MAGIC = length (takeWhile (\<lambda>c. c \<noteq> 0) TBH_MAGIC)"

definition MQSQLITE_MAX_BLOB_SIZE :: "32 word" where
  "MQSQLITE_MAX_BLOB_SIZE = 0x3FFFFFFF"

definition sizeof_typed_BLOB_header :: nat where
  "sizeof_typed_BLOB_header = 36"

definition TBH_DATA_OFFSET :: "32 word \<Rightarrow> 32 word" where
  "TBH_DATA_OFFSET nDims = 32 + 4 * (nDims + 1)"

text \<open>The bytes of an integer of \<open>n\<close> bytes, least significant first, and back.\<close>

fun int_bytes :: "nat \<Rightarrow> nat \<Rightarrow> byte list" where
  "int_bytes 0 v = []"
| "int_bytes (Suc n) v = of_nat v # int_bytes n (v div 256)"

fun bytes_int :: "byte list \<Rightarrow> nat" where
  "bytes_int [] = 0"
| "bytes_int (b # bs) = unat b + 256 * bytes_int bs"

definition put_int16 :: "host \<Rightarrow> 16 word \<Rightarrow> byte list" where
  "put_int16 h v = (if big_endian h then rev (int_bytes 2 (unat v)) else int_bytes 2 (unat v))"

definition get_int16 :: "host \<Rightarrow> byte list \<Rightarrow> 16 word" where
  "get_int16 h bs = of_nat (bytes_int (if big_endian h then rev bs else bs))"

definition put_int32 :: "host \<Rightarrow> 32 word \<Rightarrow> byte list" where
  "put_int32 h v = (if big_endian h then rev (int_bytes 4 (unat v)) else int_bytes 4 (unat v))"

definition get_int32 :: "host \<Rightarrow> byte list \<Rightarrow> 32 word" where
  "get_int32 h bs = of_nat (bytes_int (if big_endian h then rev bs else bs))"

text \<open>Writing bytes into a block at an offset, and reading \<open>n\<close> bytes at an offset.\<close>

definition write_bytes :: "byte list \<Rightarrow> nat \<Rightarrow> byte list \<Rightarrow> byte list" where
  "write_bytes mem off bs = take off mem @ bs @ drop (off + length bs) mem"

definition store :: "error + byte list \<Rightarrow> nat \<Rightarrow> byte list \<Rightarrow> error + byte list" where
  "store m off bs =
     (case m of
        Inl e \<Rightarrow> Inl e
      | Inr mem \<Rightarrow>
          if off + length bs \<le> length mem then Inr (write_bytes mem off bs)
          else Inl OUT_OF_BOUNDS)"

definition load :: "byte list \<Rightarrow> nat \<Rightarrow> nat \<Rightarrow> error + byte list" where
  "load mem off n =
     (if off + n \<le> length mem then Inr (take n (drop off mem)) else Inl OUT_OF_BOUNDS)"

text \<open>
  \<^verbatim>\<open>strncpy(dst, src, n)\<close> writes \<open>n\<close> bytes: the string and then zeros.
  \<^verbatim>\<open>strncmp(s1, s2, n)\<close> giving 0: the first \<open>n\<close> characters agree, or all up to a
  terminator both have. \<^verbatim>\<open>strcpy\<close> of \<^verbatim>\<open>TBH_MAGIC\<close> writes its 13 bytes.
\<close>

definition strncpy :: "byte list \<Rightarrow> nat \<Rightarrow> byte list" where
  "strncpy src n = take n (takeWhile (\<lambda>c. c \<noteq> 0) src @ replicate n 0)"

fun strncmp_eq :: "byte list \<Rightarrow> byte list \<Rightarrow> nat \<Rightarrow> bool" where
  "strncmp_eq s1 s2 0 = True"
| "strncmp_eq (c1 # s1) (c2 # s2) (Suc n) = (c1 = c2 \<and> (c1 = 0 \<or> strncmp_eq s1 s2 n))"
| "strncmp_eq [] [] (Suc n) = True"
| "strncmp_eq [] (c2 # s2) (Suc n) = (c2 = 0)"
| "strncmp_eq (c1 # s1) [] (Suc n) = (c1 = 0)"

text \<open>The \<^verbatim>\<open>switch( clsid )\<close> of lines 1020 to 1037 and of lines 1388 to 1405.\<close>

fun typed_blob_class :: "mxClassID \<Rightarrow> bool" where
  "typed_blob_class mxLOGICAL_CLASS = True"
| "typed_blob_class mxCHAR_CLASS = True"
| "typed_blob_class mxDOUBLE_CLASS = True"
| "typed_blob_class mxSINGLE_CLASS = True"
| "typed_blob_class mxINT8_CLASS = True"
| "typed_blob_class mxUINT8_CLASS = True"
| "typed_blob_class mxINT16_CLASS = True"
| "typed_blob_class mxUINT16_CLASS = True"
| "typed_blob_class mxINT32_CLASS = True"
| "typed_blob_class mxUINT32_CLASS = True"
| "typed_blob_class mxINT64_CLASS = True"
| "typed_blob_class mxUINT64_CLASS = True"
| "typed_blob_class _ = False"

text \<open>The loop of lines 1050 to 1053: \<^verbatim>\<open>tbh->sizeDims[j+1] = (int32_t)pitem_dims[j]\<close>.\<close>

fun store_dims :: "host \<Rightarrow> error + byte list \<Rightarrow> nat \<Rightarrow> nat list \<Rightarrow> error + byte list" where
  "store_dims h m j [] = m"
| "store_dims h m j (d # pitem_dims) =
     store_dims h (store m (32 + 4 * (j + 1)) (put_int32 h (of_nat d))) (j + 1) pitem_dims"

text \<open>
  The typed-BLOB branch of the binder (lines 1013 to 1056) up to the finished block.
  \<^verbatim>\<open>sizeBlob\<close> is an \<^verbatim>\<open>mwSize\<close>: the sum of the offset and of the product cut to 32 bits,
  compared with the bound as signed numbers. The block comes from \<^verbatim>\<open>sqlite3_malloc\<close>,
  whose parameter is an \<^verbatim>\<open>int\<close>: it returns a null pointer for a size that is not
  positive, and otherwise memory that is not cleared when the host has some. The stores
  follow the order of the source. \<^verbatim>\<open>memcpy\<close> reads \<^verbatim>\<open>(size_t) (cntElements * szElement)\<close>
  bytes, the whole product, of the data of the item and writes them behind the last
  dimension.
\<close>

definition encode_typed_blob :: "host \<Rightarrow> mxArray \<Rightarrow> error + byte list" where
  "encode_typed_blob h item =
     (let szElement = mxGetElementSize h (mxGetClassID item);
          cntElements = mxGetNumberOfElements item;
          clsid = mxGetClassID item;
          item_nDims = length (mxGetDimensions item);
          pitem_dims = mxGetDimensions item;
          sizeBlob = TBH_DATA_OFFSET (of_nat item_nDims) + of_nat (cntElements * szElement)
      in if sint sizeBlob > sint MQSQLITE_MAX_BLOB_SIZE then Inl MSG_BLOBTOOBIG
         else if \<not> typed_blob_class clsid then Inl MSG_UNSUPPVARTYPE
         else if sint sizeBlob \<le> 0 \<or> \<not> sqlite3_malloc h (nat (sint sizeBlob))
         then Inl MSG_MEMERROR
         else
           (let blob = Inr (map (uninitialised h) [0..<nat (sint sizeBlob)]);
                tbh1 = store blob 14 (put_int16 h (of_nat sizeof_typed_BLOB_header));
                tbh2 = store tbh1 16 (put_int32 h (int32_of_mxClassID clsid));
                tbh3 = store tbh2 31 [g_endian h];
                tbh4 = store tbh3 32 (put_int32 h (of_nat item_nDims));
                tbh5 = store tbh4 0 TBH_MAGIC;
                tbh6 = store tbh5 20 (strncpy (g_platform h) 10);
                tbh7 = store_dims h tbh6 0 pitem_dims
            in case load (mxGetData item) 0 (cntElements * szElement) of
                 Inl e \<Rightarrow> Inl e
               | Inr bytes \<Rightarrow> store tbh7 (32 + 4 * (item_nDims + 1)) bytes))"

text \<open>\<^verbatim>\<open>mxCreateNumericArray\<close> reads \<open>n\<close> sizes from \<^verbatim>\<open>pSize\<close>, four bytes each.\<close>

fun get_dims :: "host \<Rightarrow> byte list \<Rightarrow> nat \<Rightarrow> 32 word list" where
  "get_dims h bs 0 = []"
| "get_dims h bs (Suc n) = get_int32 h (take 4 bs) # get_dims h (drop 4 bs) n"

text \<open>
  The typed-BLOB branch of the result loop (lines 1357 to 1413) for a column value of
  \<^verbatim>\<open>m_Size\<close> bytes, \<^verbatim>\<open>m_Size > 0\<close>. The version is read and compared first; then the
  other members of the fixed header are read. A mismatch of platform or endianness
  only warns. The magic is compared with \<^verbatim>\<open>strncmp\<close> over \<^verbatim>\<open>strlen( TBH_MAGIC )\<close>
  characters. \<^verbatim>\<open>sizeBlob\<close> is an \<^verbatim>\<open>int32_t\<close>, the low 32 bits of the difference, and is
  compared with the \<^verbatim>\<open>size_t\<close> product of the new array: they are equal when the signed
  value of \<^verbatim>\<open>sizeBlob\<close> is that product (a negative \<^verbatim>\<open>sizeBlob\<close> becomes a \<^verbatim>\<open>size_t\<close>
  within \<open>2^31\<close> of its greatest value, which the bytes of no array reach). \<^verbatim>\<open>memcpy\<close>
  then copies \<^verbatim>\<open>sizeBlob\<close> bytes, which is not negative there. The value is the class,
  the sizes given to \<^verbatim>\<open>mxCreateNumericArray\<close> and the bytes copied into the new array,
  with the warnings.
\<close>

definition decode_typed_blob ::
  "host \<Rightarrow> byte list \<Rightarrow> error + (warning list \<times> mxClassID \<times> nat list \<times> byte list)"
where
  "decode_typed_blob h blob =
     (let m_Size = length blob
      in case load blob 14 2 of
           Inl e \<Rightarrow> Inl e
         | Inr ver_bytes \<Rightarrow>
             let ver = get_int16 h ver_bytes
             in if ver \<noteq> of_nat sizeof_typed_BLOB_header then Inl MSG_UNSUPPTBH
                else
                  (case load blob 0 sizeof_typed_BLOB_header of
                     Inl e \<Rightarrow> Inl e
                   | Inr tbh \<Rightarrow>
                       let clsid = get_int32 h (take 4 (drop 16 tbh));
                           platform = take 11 (drop 20 tbh);
                           endian = tbh ! 31;
                           item_nDims = get_int32 h (take 4 (drop 32 tbh));
                           sizeBlob = of_nat m_Size - TBH_DATA_OFFSET item_nDims;
                           warnings =
                             (if g_endian h \<noteq> endian \<or> \<not> strncmp_eq (g_platform h) platform 10
                              then [MSG_WARNDIFFARCH] else [])
                       in if \<not> strncmp_eq tbh TBH_MAGIC strlen_TBH_MAGIC
                             \<or> ver \<noteq> of_nat sizeof_typed_BLOB_header
                          then Inl MSG_UNSUPPTBH
                          else
                            (case mxClassID_of_int32 clsid of
                               None \<Rightarrow> Inl MSG_UNSUPPVARTYPE
                             | Some c \<Rightarrow>
                                 if \<not> typed_blob_class c then Inl MSG_UNSUPPVARTYPE
                                 else
                                   (case load blob 36 (4 * unat item_nDims) of
                                      Inl e \<Rightarrow> Inl e
                                    | Inr dim_bytes \<Rightarrow>
                                        let pSize = get_dims h dim_bytes (unat item_nDims)
                                        in (case mxCreateNumericArray h item_nDims pSize c of
                                              None \<Rightarrow> Inl MSG_MEMERROR
                                            | Some numel \<Rightarrow>
                                                if sint sizeBlob \<noteq> int (numel * mxGetElementSize h c)
                                                then Inl MSG_INVALIDARG
                                                else
                                                  (case load blob (unat (TBH_DATA_OFFSET item_nDims))
                                                          (unat sizeBlob) of
                                                     Inl e \<Rightarrow> Inl e
                                                   | Inr bytes \<Rightarrow>
                                                       Inr (warnings, c, map unat pSize, bytes)))))))"

section \<open>Parameter binder\<close>

text \<open>
  The text case of the binder (lines 1093 to 1109): the string of the item, sent
  through \<^verbatim>\<open>latin2utf\<close> in two passes when conversion is on. \<^verbatim>\<open>mxCalloc\<close> clears the
  memory it returns.
\<close>

definition bind_text_value :: "host \<Rightarrow> config \<Rightarrow> byte list option \<Rightarrow> error + byte list option" where
  "bind_text_value h cfg str_value =
     (case str_value of
        None \<Rightarrow> Inr None
      | Some str \<Rightarrow>
          if convertUTF8 cfg then
            (case latin2utf str_value None of
               Inl e \<Rightarrow> Inl e
             | Inr (len, _) \<Rightarrow>
                 if mxCalloc h (nat (sint len)) then
                   (case latin2utf str_value (Some (replicate (nat (sint len)) 0)) of
                      Inl e \<Rightarrow> Inl e
                    | Inr (_, temp) \<Rightarrow> Inr temp)
                 else Inl MSG_MEMERROR)
          else Inr str_value)"

text \<open>A call to the engine: \<^verbatim>\<open>FINALIZE( SQL_ERR )\<close> unless it answers \<^verbatim>\<open>SQLITE_OK\<close>.\<close>

definition engine :: "host \<Rightarrow> bind_call \<Rightarrow> error + bind_call" where
  "engine h c = (if sqlite3_bind h c then Inr c else Inl SQL_ERR)"

text \<open>The \<^verbatim>\<open>switch ( clsid )\<close> of lines 1067 to 1122, for one element or for text.\<close>

definition bind_scalar :: "host \<Rightarrow> config \<Rightarrow> nat \<Rightarrow> mxArray \<Rightarrow> error + bind_call" where
  "bind_scalar h cfg iParam item =
     (case mxGetClassID item of
        mxLOGICAL_CLASS \<Rightarrow> engine h (sqlite3_bind_int (iParam + 1) (Int_of_double (mxGetScalar item)))
      | mxINT8_CLASS \<Rightarrow> engine h (sqlite3_bind_int (iParam + 1) (Int_of_double (mxGetScalar item)))
      | mxUINT8_CLASS \<Rightarrow> engine h (sqlite3_bind_int (iParam + 1) (Int_of_double (mxGetScalar item)))
      | mxINT16_CLASS \<Rightarrow> engine h (sqlite3_bind_int (iParam + 1) (Int_of_double (mxGetScalar item)))
      | mxINT32_CLASS \<Rightarrow> engine h (sqlite3_bind_int (iParam + 1) (Int_of_double (mxGetScalar item)))
      | mxUINT16_CLASS \<Rightarrow> engine h (sqlite3_bind_int (iParam + 1) (Int_of_double (mxGetScalar item)))
      | mxUINT32_CLASS \<Rightarrow> engine h (sqlite3_bind_int (iParam + 1) (Int_of_double (mxGetScalar item)))
      | mxDOUBLE_CLASS \<Rightarrow> engine h (sqlite3_bind_double (iParam + 1) (mxGetScalar item))
      | mxSINGLE_CLASS \<Rightarrow> engine h (sqlite3_bind_double (iParam + 1) (mxGetScalar item))
      | mxCHAR_CLASS \<Rightarrow>
          (case bind_text_value h cfg (mxArrayToString item) of
             Inl e \<Rightarrow> Inl e
           | Inr str_value \<Rightarrow> engine h (sqlite3_bind_text (iParam + 1) str_value))
      | _ \<Rightarrow> Inl MSG_INVALIDARG)"

text \<open>
  One round of the loop over the parameters for an item that is there and not empty
  (lines 987 to 1123).
\<close>

definition bind_item :: "host \<Rightarrow> config \<Rightarrow> nat \<Rightarrow> mxArray \<Rightarrow> error + bind_call" where
  "bind_item h cfg iParam item =
     (if mxIsComplex item \<or> mxIsCell item \<or> mxIsStruct item then Inl MSG_UNSUPPVARTYPE
      else
        (let szElement = mxGetElementSize h (mxGetClassID item);
             cntElements = mxGetNumberOfElements item;
             clsid = mxGetClassID item
         in if cntElements > 1 \<and> clsid \<noteq> mxCHAR_CLASS then
              (if \<not> use_typed_blobs cfg then
                 (case load (mxGetData item) 0 (unat (of_nat (cntElements * szElement) :: 32 word)) of
                    Inl e \<Rightarrow> Inl e
                  | Inr blob \<Rightarrow> engine h (sqlite3_bind_blob (iParam + 1) blob SQLITE_TRANSIENT))
               else
                 (case encode_typed_blob h item of
                    Inl e \<Rightarrow> Inl e
                  | Inr blob \<Rightarrow> engine h (sqlite3_bind_blob (iParam + 1) blob sqlite3_free)))
            else bind_scalar h cfg iParam item))"

text \<open>
  The loop \<^verbatim>\<open>for ( iParam = 0; iParam < bind_names_count; iParam++ )\<close>: a cell that is
  null or empty is passed over; the value is the list of the calls made, in order.
\<close>

function bind_loop ::
  "host \<Rightarrow> config \<Rightarrow> mxArray option list \<Rightarrow> nat \<Rightarrow> nat \<Rightarrow> error + bind_call list"
where
  "bind_loop h cfg pArgs bind_names_count iParam =
     (if iParam < bind_names_count then
        (case mxGetCell pArgs iParam of
           None \<Rightarrow> bind_loop h cfg pArgs bind_names_count (iParam + 1)
         | Some item \<Rightarrow>
             if mxIsEmpty item then bind_loop h cfg pArgs bind_names_count (iParam + 1)
             else
               (case bind_item h cfg iParam item of
                  Inl e \<Rightarrow> Inl e
                | Inr c \<Rightarrow>
                    (case bind_loop h cfg pArgs bind_names_count (iParam + 1) of
                       Inl e \<Rightarrow> Inl e
                     | Inr cs \<Rightarrow> Inr (c # cs))))
      else Inr [])"
  by pat_completeness auto
termination
  by (relation "measure (\<lambda>(h, cfg, pArgs, bind_names_count, iParam). bind_names_count - iParam)")
    auto

declare bind_loop.simps [simp del]

text \<open>
  Collecting the arguments behind the command (lines 936 to 977) for a statement with
  \<open>bind_names_count\<close> placeholders: \<open>args\<close> are \<^verbatim>\<open>prhs[FirstArg]\<close> and what follows it,
  \<^verbatim>\<open>NumArgs\<close> of them. The value is the cells of \<^verbatim>\<open>pArgs\<close>.
\<close>

definition collect_args :: "host \<Rightarrow> nat \<Rightarrow> mxArray list \<Rightarrow> error + mxArray option list" where
  "collect_args h bind_names_count args =
     (let NumArgs = length args
      in if bind_names_count = 0 \<and> NumArgs > 0 then Inl MSG_UNEXPECTEDARG
         else
           (case args of
              [] \<Rightarrow>
                if NumArgs > bind_names_count then Inl MSG_UNEXPECTEDARG
                else if \<not> mxCreateCellMatrix h bind_names_count then Inl MSG_MISSINGARG
                else Inr (map (\<lambda>i. Some mxCreateLogicalMatrix_0_0) [0..<bind_names_count])
            | first # _ \<Rightarrow>
                if \<not> mxIsCell first then
                  (if NumArgs > bind_names_count then Inl MSG_UNEXPECTEDARG
                   else if \<not> mxCreateCellMatrix h bind_names_count then Inl MSG_MISSINGARG
                   else
                     Inr (map (\<lambda>i. if i < NumArgs
                                     then (if mxDuplicateArray h (args ! i) then Some (args ! i)
                                           else None)
                                     else Some mxCreateLogicalMatrix_0_0)
                            [0..<bind_names_count]))
                else
                  (if NumArgs > 1 then Inl MSG_UNEXPECTEDARG
                   else if \<not> mxDuplicateArray h first then Inl MSG_MISSINGARG
                   else Inr (mxCells first))))"

definition bind_arguments :: "host \<Rightarrow> config \<Rightarrow> nat \<Rightarrow> mxArray list \<Rightarrow> error + bind_call list" where
  "bind_arguments h cfg bind_names_count args =
     (case collect_args h bind_names_count args of
        Inl e \<Rightarrow> Inl e
      | Inr pArgs \<Rightarrow> bind_loop h cfg pArgs bind_names_count 0)"

section \<open>Proofs: charset codec\<close>

lemma all_bytes: "list_all P (map word_of_nat [0..<256]) \<Longrightarrow> P (c::byte)"
proof -
  assume a: "list_all P (map word_of_nat [0..<256])"
  have "unat c < 2 ^ LENGTH(8)" by (rule unsigned_less)
  then have "unat c \<in> set [0..<256]" by simp
  then have "(word_of_nat (unat c) :: byte) \<in> word_of_nat ` set [0..<256]" by (rule imageI)
  then have "c \<in> set (map word_of_nat [0..<256] :: byte list)" by simp
  with a show ?thesis by (simp only: list_all_iff)
qed

lemma latin2utf_cont_eq: "latin2utf_cont c = 128 + (c AND 63)"
  by (rule all_bytes[where c=c]) (simp add: upt_conv_Cons latin2utf_cont_def)

lemma latin2utf_lead_eq: "latin2utf_lead c = 128 + 64 + drop_bit 6 c"
  by (rule all_bytes[where c=c]) (simp add: upt_conv_Cons latin2utf_lead_def)

lemma latin2utf_pair:
  "128 \<le> c \<longrightarrow> utf2latin_byte (latin2utf_lead c) (latin2utf_cont c) = c
      \<and> 128 \<le> latin2utf_lead c \<and> latin2utf_cont c \<noteq> 0 \<and> latin2utf_lead c \<noteq> 0"
  by (rule all_bytes[where c=c])
     (simp add: upt_conv_Cons latin2utf_lead_def latin2utf_cont_def utf2latin_byte_def)

lemma utf2latin_byte_eq: "utf2latin_byte a b = push_bit 6 a OR (b AND 63)"
  unfolding utf2latin_byte_def
  by (rule bit_word_eqI) (auto simp: bit_simps)

lemma poke_Some: "i < length b \<Longrightarrow> poke (Some b) i v = Inr (Some (b[i := v]))"
  by (simp add: poke_def)

lemma poke_None: "poke None i v = Inr None"
  by (simp add: poke_def)

lemma take_Suc_update: "p < length b \<Longrightarrow> take (Suc p) (b[p := v]) = take p b @ [v]"
  by (simp add: take_Suc_conv_app_nth)

lemma latin2utf_bytes_Cons:
  "latin2utf_bytes (c # x) =
     (if c < 128 then c # latin2utf_bytes x
      else latin2utf_lead c # latin2utf_cont c # latin2utf_bytes x)"
  by (simp add: latin2utf_bytes_def latin2utf_lead_eq latin2utf_cont_eq)

lemma latin2utf_bytes_Nil: "latin2utf_bytes [] = []"
  by (simp add: latin2utf_bytes_def)

lemma latin2utf_while_buffer:
  "0 \<notin> set x \<Longrightarrow> p + length (latin2utf_bytes x) \<le> length b \<Longrightarrow>
   latin2utf_while (x @ 0 # rest) (Some b) p cnt =
     Inr (Some (take p b @ latin2utf_bytes x @ drop (p + length (latin2utf_bytes x)) b),
          p + length (latin2utf_bytes x), cnt + of_nat (length (latin2utf_bytes x)))"
proof (induction x arbitrary: b p cnt)
  case Nil
  then show ?case by (simp add: latin2utf_bytes_Nil)
next
  case (Cons c x)
  from Cons.prems have c0: "c \<noteq> 0" and x0: "0 \<notin> set x" by auto
  show ?case
  proof (cases "c < 128")
    case True
    with Cons.prems have room: "p < length b"
      "Suc p + length (latin2utf_bytes x) \<le> length (b[p := c])"
      by (simp_all add: latin2utf_bytes_Cons)
    show ?thesis
      using True c0 room Cons.IH[OF x0 room(2), of "cnt + 1"]
      by (simp add: latin2utf_bytes_Cons poke_Some take_Suc_update)
  next
    case False
    with Cons.prems have room: "p < length b" "Suc p < length b"
      "Suc (Suc p) + length (latin2utf_bytes x)
         \<le> length (b[p := latin2utf_lead c, Suc p := latin2utf_cont c])"
      by (simp_all add: latin2utf_bytes_Cons)
    have tk: "take (Suc (Suc p)) (b[p := latin2utf_lead c, Suc p := latin2utf_cont c])
               = take p b @ [latin2utf_lead c, latin2utf_cont c]"
      using room by (simp add: take_Suc_conv_app_nth nth_list_update)
    show ?thesis
      using False c0 room(1,2) Cons.IH[OF x0 room(3), of "cnt + 2"]
      by (simp add: latin2utf_bytes_Cons poke_Some tk)
  qed
qed

lemma latin2utf_while_measure:
  "0 \<notin> set x \<Longrightarrow>
   latin2utf_while (x @ 0 # rest) None 0 cnt =
     Inr (None, 0, cnt + of_nat (length (latin2utf_bytes x)))"
proof (induction x arbitrary: cnt)
  case Nil
  then show ?case by (simp add: latin2utf_bytes_Nil)
next
  case (Cons c x)
  then show ?case
    by (cases "c < 128") (simp_all add: latin2utf_bytes_Cons poke_None)
qed

lemma utf2latin_while_stop: "utf2latin_while (0 # m) buffer p cnt = Inr (buffer, p, cnt)"
  by (cases m) simp_all

lemma utf2latin_while_ascii:
  "c \<noteq> 0 \<Longrightarrow> c < 128 \<Longrightarrow>
   utf2latin_while (c # d # m) (Some b) p cnt =
     (case poke (Some b) p c of Inl e \<Rightarrow> Inl e
      | Inr b' \<Rightarrow> utf2latin_while (d # m) b' (p + 1) (cnt + 1))"
  by simp

lemma utf2latin_while_pair:
  "\<not> c < 128 \<Longrightarrow>
   utf2latin_while (c # d # m) (Some b) p cnt =
     (case poke (Some b) p (utf2latin_byte c d) of Inl e \<Rightarrow> Inl e
      | Inr b' \<Rightarrow> utf2latin_while m b' (p + 1) (cnt + 1))"
  by (auto simp: not_less)

lemma utf2latin_while_buffer:
  "utf_pairs x \<Longrightarrow> 0 \<notin> set x \<Longrightarrow> p + length (utf2latin_bytes x) \<le> length b \<Longrightarrow>
   utf2latin_while (x @ 0 # rest) (Some b) p cnt =
     Inr (Some (take p b @ utf2latin_bytes x @ drop (p + length (utf2latin_bytes x)) b),
          p + length (utf2latin_bytes x), cnt + of_nat (length (utf2latin_bytes x)))"
proof (induction x arbitrary: b p cnt rule: utf2latin_bytes.induct)
  case 1
  then show ?case by (simp add: utf2latin_while_stop del: utf2latin_while.simps)
next
  case (2 c)
  then show ?case
    by (simp add: poke_Some upd_conv_take_nth_drop utf2latin_while_stop utf2latin_while_ascii
          del: utf2latin_while.simps)
next
  case (3 lead cont u)
  show ?case
  proof (cases "lead < 128")
    case True
    with "3.prems" have pre: "utf_pairs (cont # u)" "0 \<notin> set (cont # u)" "lead \<noteq> 0"
      "p < length b" "Suc p + length (utf2latin_bytes (cont # u)) \<le> length (b[p := lead])"
      by auto
    have ub: "utf2latin_bytes (lead # cont # u) = lead # utf2latin_bytes (cont # u)"
      using True by simp
    show ?thesis
      using True pre(3,4) "3.IH"(1)[OF True pre(1,2,5), of "cnt + 1"]
      by (simp add: poke_Some take_Suc_update utf2latin_while_ascii ub
            del: utf2latin_while.simps utf2latin_bytes.simps)
  next
    case False
    with "3.prems" have pre: "utf_pairs u" "0 \<notin> set u"
      "p < length b"
      "Suc p + length (utf2latin_bytes u) \<le> length (b[p := utf2latin_byte lead cont])"
      by auto
    show ?thesis
      using False pre(3) "3.IH"(2)[OF False pre(1,2,4), of "cnt + 1"]
      by (simp add: poke_Some take_Suc_update utf2latin_byte_eq utf2latin_while_pair
            del: utf2latin_while.simps)
  qed
qed

lemma utf2latin_while_ascii_None:
  "c \<noteq> 0 \<Longrightarrow> c < 128 \<Longrightarrow>
   utf2latin_while (c # d # m) None p cnt = utf2latin_while (d # m) None p (cnt + 1)"
  by (simp add: poke_None)

lemma utf2latin_while_pair_None:
  "\<not> c < 128 \<Longrightarrow> utf2latin_while (c # d # m) None p cnt = utf2latin_while m None p (cnt + 1)"
  by (auto simp: not_less poke_None)

lemma utf2latin_while_measure:
  "utf_pairs x \<Longrightarrow> 0 \<notin> set x \<Longrightarrow>
   utf2latin_while (x @ 0 # rest) None p cnt =
     Inr (None, p, cnt + of_nat (length (utf2latin_bytes x)))"
proof (induction x arbitrary: cnt rule: utf2latin_bytes.induct)
  case 1
  then show ?case by (simp add: utf2latin_while_stop del: utf2latin_while.simps)
next
  case (2 c)
  then show ?case
    by (simp add: utf2latin_while_stop utf2latin_while_ascii_None del: utf2latin_while.simps)
next
  case (3 lead cont u)
  then show ?case
    by (cases "lead < 128")
       (simp_all add: utf2latin_while_ascii_None utf2latin_while_pair_None
          del: utf2latin_while.simps)
qed

lemma utf2latin_latin2utf_bytes: "utf2latin_bytes (latin2utf_bytes x) = x"
proof (induction x)
  case Nil
  then show ?case by (simp add: latin2utf_bytes_Nil)
next
  case (Cons c x)
  show ?case
  proof (cases "c < 128")
    case True
    with Cons.IH show ?thesis
      by (cases "latin2utf_bytes x") (simp_all add: latin2utf_bytes_Cons)
  next
    case False
    then have ge: "128 \<le> c" by simp
    from latin2utf_pair[of c] ge
    have "utf2latin_byte (latin2utf_lead c) (latin2utf_cont c) = c" "\<not> latin2utf_lead c < 128"
      by auto
    with False Cons.IH show ?thesis
      by (simp add: latin2utf_bytes_Cons utf2latin_byte_eq)
  qed
qed

lemma utf_pairs_latin2utf_bytes: "utf_pairs (latin2utf_bytes x)"
proof (induction x)
  case Nil
  then show ?case by (simp add: latin2utf_bytes_Nil)
next
  case (Cons c x)
  show ?case
  proof (cases "c < 128")
    case True
    with Cons.IH show ?thesis
      by (cases "latin2utf_bytes x") (simp_all add: latin2utf_bytes_Cons)
  next
    case False
    then have ge: "128 \<le> c" by simp
    from latin2utf_pair[of c] ge have "\<not> latin2utf_lead c < 128" by auto
    with False Cons.IH show ?thesis by (simp add: latin2utf_bytes_Cons)
  qed
qed

lemma latin2utf_bytes_nonzero: "0 \<notin> set x \<Longrightarrow> 0 \<notin> set (latin2utf_bytes x)"
proof (induction x)
  case Nil
  then show ?case by (simp add: latin2utf_bytes_Nil)
next
  case (Cons c x)
  show ?case
  proof (cases "c < 128")
    case True
    with Cons show ?thesis by (auto simp: latin2utf_bytes_Cons)
  next
    case False
    then have ge: "128 \<le> c" by simp
    from latin2utf_pair[of c] ge have "latin2utf_lead c \<noteq> 0" "latin2utf_cont c \<noteq> 0" by auto
    with False Cons show ?thesis by (auto simp: latin2utf_bytes_Cons)
  qed
qed

lemma length_latin2utf_bytes: "length (latin2utf_bytes x) \<le> 2 * length x"
  by (induction x) (simp_all add: latin2utf_bytes_def)

lemma length_utf2latin_bytes: "length (utf2latin_bytes x) \<le> length x"
  by (induction x rule: utf2latin_bytes.induct) auto

lemma fill_exact:
  "length b = Suc n \<Longrightarrow> length ys = n \<Longrightarrow> (take 0 b @ ys @ drop (0 + n) b)[n := v] = ys @ [v]"
proof -
  assume a: "length b = Suc n" "length ys = n"
  then have "length (drop n b) = Suc 0" by simp
  then obtain z where "drop n b = [z]"
    by (cases "drop n b") simp_all
  with a show ?thesis by (simp add: list_update_append)
qed

lemma latin2utf_measure:
  "0 \<notin> set x \<Longrightarrow>
   latin2utf (Some (x @ 0 # rest)) None = Inr (of_nat (length (latin2utf_bytes x)) + 1, None)"
  by (simp add: latin2utf_def latin2utf_while_measure poke_None)

lemma latin2utf_fill:
  "0 \<notin> set x \<Longrightarrow> length b = length (latin2utf_bytes x) + 1 \<Longrightarrow>
   latin2utf (Some (x @ 0 # rest)) (Some b) =
     Inr (of_nat (length (latin2utf_bytes x)) + 1, Some (latin2utf_bytes x @ [0]))"
  using fill_exact[of b "length (latin2utf_bytes x)" "latin2utf_bytes x" 0]
  by (simp add: latin2utf_def latin2utf_while_buffer poke_Some)

lemma utf2latin_measure:
  "utf_pairs u \<Longrightarrow> 0 \<notin> set u \<Longrightarrow>
   utf2latin (Some (u @ 0 # rest)) None = Inr (of_nat (length (utf2latin_bytes u)) + 1, None)"
  by (simp add: utf2latin_def utf2latin_while_measure poke_None)

lemma utf2latin_fill:
  "utf_pairs u \<Longrightarrow> 0 \<notin> set u \<Longrightarrow> length b = length (utf2latin_bytes u) + 1 \<Longrightarrow>
   utf2latin (Some (u @ 0 # rest)) (Some b) =
     Inr (of_nat (length (utf2latin_bytes u)) + 1, Some (utf2latin_bytes u @ [0]))"
  using fill_exact[of b "length (utf2latin_bytes u)" "utf2latin_bytes u" 0]
  by (simp add: utf2latin_def utf2latin_while_buffer poke_Some)

lemma sint_count: "n + 1 < 2 ^ 31 \<Longrightarrow> sint (of_nat n + 1 :: 32 word) = int n + 1"
proof -
  assume a: "n + 1 < 2 ^ 31"
  have "sint (word_of_int (int (n + 1)) :: 32 word) = int (n + 1)"
    unfolding int_word_sint using a by simp
  then show ?thesis by (simp add: add.commute)
qed

text \<open>
  C3. Charset round trip. A string \<open>x\<close> without a zero byte, sent through \<^verbatim>\<open>latin2utf\<close>
  into a buffer of the needed size and then through \<^verbatim>\<open>utf2latin\<close>, comes back as it
  was. A byte below 128 is written as it is; a byte \<open>c\<close> of 128 or more is written as
  the two bytes \<open>128 + 64 + (c >> 6)\<close> and \<open>128 + (c & 63)\<close>; a pair \<open>(lead, cont)\<close> is
  read back as the byte \<open>(lead << 6) | (cont & 63)\<close>.
\<close>

theorem charset_round_trip:
  assumes "0 \<notin> set x"
    and "length b = length (latin2utf_bytes x) + 1"
    and "length b' = length x + 1"
  shows "latin2utf (Some (x @ [0])) (Some b) =
           Inr (of_nat (length (latin2utf_bytes x)) + 1, Some (latin2utf_bytes x @ [0]))
       \<and> utf2latin (Some (latin2utf_bytes x @ [0])) (Some b') =
           Inr (of_nat (length x) + 1, Some (x @ [0]))
       \<and> (c \<noteq> 0 \<and> c < 128 \<longrightarrow>
            latin2utf (Some [c, 0]) (Some [j0, j1]) = Inr (2, Some [c, 0])
          \<and> utf2latin (Some [c, 0]) (Some [j0, j1]) = Inr (2, Some [c, 0]))
       \<and> (128 \<le> c \<longrightarrow>
            latin2utf (Some [c, 0]) (Some [j0, j1, j2]) =
              Inr (3, Some [128 + 64 + drop_bit 6 c, 128 + (c AND 63), 0]))
       \<and> (128 \<le> lead \<longrightarrow>
            utf2latin (Some [lead, cont, 0]) (Some [j0, j1]) =
              Inr (2, Some [push_bit 6 lead OR (cont AND 63), 0]))"
proof -
  have enc: "latin2utf (Some (x @ [0])) (Some b) =
           Inr (of_nat (length (latin2utf_bytes x)) + 1, Some (latin2utf_bytes x @ [0]))"
    using assms(1,2) by (rule latin2utf_fill)
  have "length b' = length (utf2latin_bytes (latin2utf_bytes x)) + 1"
    using assms(3) by (simp add: utf2latin_latin2utf_bytes)
  with utf_pairs_latin2utf_bytes[of x] latin2utf_bytes_nonzero[OF assms(1)]
  have "utf2latin (Some (latin2utf_bytes x @ [0])) (Some b') =
     Inr (of_nat (length (utf2latin_bytes (latin2utf_bytes x))) + 1,
          Some (utf2latin_bytes (latin2utf_bytes x) @ [0]))"
    by (rule utf2latin_fill)
  then have dec: "utf2latin (Some (latin2utf_bytes x @ [0])) (Some b') =
           Inr (of_nat (length x) + 1, Some (x @ [0]))"
    by (simp add: utf2latin_latin2utf_bytes)
  have ascii: "c \<noteq> 0 \<and> c < 128 \<longrightarrow>
            latin2utf (Some [c, 0]) (Some [j0, j1]) = Inr (2, Some [c, 0])
          \<and> utf2latin (Some [c, 0]) (Some [j0, j1]) = Inr (2, Some [c, 0])"
    by (simp add: latin2utf_def utf2latin_def poke_def)
  have two: "128 \<le> c \<longrightarrow>
            latin2utf (Some [c, 0]) (Some [j0, j1, j2]) =
              Inr (3, Some [128 + 64 + drop_bit 6 c, 128 + (c AND 63), 0])"
  proof
    assume ge: "128 \<le> c"
    then have "\<not> c < 128" "c \<noteq> 0" by auto
    then show "latin2utf (Some [c, 0]) (Some [j0, j1, j2]) =
              Inr (3, Some [128 + 64 + drop_bit 6 c, 128 + (c AND 63), 0])"
      by (simp add: latin2utf_def poke_def latin2utf_lead_eq latin2utf_cont_eq)
  qed
  have pair: "128 \<le> lead \<longrightarrow>
            utf2latin (Some [lead, cont, 0]) (Some [j0, j1]) =
              Inr (2, Some [push_bit 6 lead OR (cont AND 63), 0])"
  proof
    assume ge: "128 \<le> lead"
    then have "\<not> lead < 128" "lead \<noteq> 0" by auto
    then show "utf2latin (Some [lead, cont, 0]) (Some [j0, j1]) =
              Inr (2, Some [push_bit 6 lead OR (cont AND 63), 0])"
      by (simp add: utf2latin_def poke_def utf2latin_byte_eq)
  qed
  from enc dec ascii two pair show ?thesis by blast
qed

theorem charset_round_trip_witness:
  "latin2utf (Some [0x41, 0xE4, 0x7A, 0]) (Some [9, 9, 9, 9, 9]) =
     Inr (5, Some [0x41, 0xC3, 0xA4, 0x7A, 0])
   \<and> utf2latin (Some [0x41, 0xC3, 0xA4, 0x7A, 0]) (Some [7, 7, 7, 7]) =
     Inr (4, Some [0x41, 0xE4, 0x7A, 0])
   \<and> latin2utf (Some [0x41, 0]) (Some [1, 2]) = Inr (2, Some [0x41, 0])
   \<and> utf2latin (Some [0x41, 0]) (Some [1, 2]) = Inr (2, Some [0x41, 0])
   \<and> latin2utf (Some [0xE4, 0]) (Some [1, 2, 3]) = Inr (3, Some [0xC3, 0xA4, 0])
   \<and> utf2latin (Some [0xC3, 0xA4, 0]) (Some [1, 2]) = Inr (2, Some [0xE4, 0])"
  using charset_round_trip[of "[0x41, 0xE4, 0x7A]" "[9, 9, 9, 9, 9]" "[7, 7, 7, 7]" "0x41" 1 2]
        charset_round_trip[of "[0x41, 0xE4, 0x7A]" "[9, 9, 9, 9, 9]" "[7, 7, 7, 7]" "0xE4" 1 2 3 "0xC3" "0xA4"]
  by (simp add: latin2utf_bytes_def)

text \<open>
  C4, as stated: the length returned without a destination does not count the
  terminator. It does: for the one-character string \<open>A\<close> both functions return 2, and a
  buffer of one byte, the length without the terminator, is overrun by the second call.
  Nor is every terminated input measured: \<^verbatim>\<open>utf2latin\<close> takes the terminator behind a
  last byte of 128 or more for the second byte of a pair and reads on behind it.
\<close>

theorem charset_length_counts_terminator:
  "latin2utf (Some [0x41, 0]) None = Inr (2, None)
   \<and> utf2latin (Some [0x41, 0]) None = Inr (2, None)
   \<and> strlen [0x41, 0] = Some 1
   \<and> latin2utf (Some [0x41, 0]) (Some [9]) = Inl OUT_OF_BOUNDS
   \<and> utf2latin (Some [0x41, 0]) (Some [9]) = Inl OUT_OF_BOUNDS
   \<and> utf2latin (Some [0xC3, 0]) None = Inl OUT_OF_BOUNDS"
  by (simp add: latin2utf_def utf2latin_def poke_def)

text \<open>
  C4, amended. For a string without a zero byte, followed by its terminator and by
  whatever memory \<open>rest\<close>, and for \<^verbatim>\<open>utf2latin\<close> with every byte of 128 or more followed
  by another byte of the string: the call without a destination returns the number of
  bytes of the output with its terminator counted, and the call with a destination of
  exactly that many bytes returns the same number and leaves in the buffer the output
  and the terminator, whatever the buffer held before. The counter is a C \<^verbatim>\<open>int\<close>, so
  the lengths are taken below \<open>2^31\<close>.
\<close>

theorem charset_length_protocol:
  assumes "0 \<notin> set x" and "2 * length x + 1 < 2 ^ 31"
    and "0 \<notin> set u" and "utf_pairs u" and "length u + 1 < 2 ^ 31"
  shows "latin2utf (Some (x @ 0 # rest)) None =
           Inr (of_nat (length (latin2utf_bytes x)) + 1, None)
       \<and> sint (of_nat (length (latin2utf_bytes x)) + 1 :: 32 word) =
           int (length (latin2utf_bytes x @ [0]))
       \<and> (\<forall>b. int (length b) = sint (of_nat (length (latin2utf_bytes x)) + 1 :: 32 word) \<longrightarrow>
            latin2utf (Some (x @ 0 # rest)) (Some b) =
              Inr (of_nat (length (latin2utf_bytes x)) + 1, Some (latin2utf_bytes x @ [0])))
       \<and> utf2latin (Some (u @ 0 # rest')) None =
           Inr (of_nat (length (utf2latin_bytes u)) + 1, None)
       \<and> sint (of_nat (length (utf2latin_bytes u)) + 1 :: 32 word) =
           int (length (utf2latin_bytes u @ [0]))
       \<and> (\<forall>b. int (length b) = sint (of_nat (length (utf2latin_bytes u)) + 1 :: 32 word) \<longrightarrow>
            utf2latin (Some (u @ 0 # rest')) (Some b) =
              Inr (of_nat (length (utf2latin_bytes u)) + 1, Some (utf2latin_bytes u @ [0])))"
proof -
  have "length (latin2utf_bytes x) + 1 < 2 ^ 31"
    using length_latin2utf_bytes[of x] assms(2) by simp
  then have n1: "sint (of_nat (length (latin2utf_bytes x)) + 1 :: 32 word) =
      int (length (latin2utf_bytes x)) + 1"
    by (rule sint_count)
  have "length (utf2latin_bytes u) + 1 < 2 ^ 31"
    using length_utf2latin_bytes[of u] assms(5) by simp
  then have n2: "sint (of_nat (length (utf2latin_bytes u)) + 1 :: 32 word) =
      int (length (utf2latin_bytes u)) + 1"
    by (rule sint_count)
  have l1: "latin2utf (Some (x @ 0 # rest)) None =
           Inr (of_nat (length (latin2utf_bytes x)) + 1, None)"
    using assms(1) by (rule latin2utf_measure)
  have l2: "\<forall>b. int (length b) = sint (of_nat (length (latin2utf_bytes x)) + 1 :: 32 word) \<longrightarrow>
            latin2utf (Some (x @ 0 # rest)) (Some b) =
              Inr (of_nat (length (latin2utf_bytes x)) + 1, Some (latin2utf_bytes x @ [0]))"
  proof (intro allI impI)
    fix b :: "byte list"
    assume "int (length b) = sint (of_nat (length (latin2utf_bytes x)) + 1 :: 32 word)"
    with n1 have "length b = length (latin2utf_bytes x) + 1" by simp
    with assms(1) show "latin2utf (Some (x @ 0 # rest)) (Some b) =
              Inr (of_nat (length (latin2utf_bytes x)) + 1, Some (latin2utf_bytes x @ [0]))"
      by (rule latin2utf_fill)
  qed
  have u1: "utf2latin (Some (u @ 0 # rest')) None =
           Inr (of_nat (length (utf2latin_bytes u)) + 1, None)"
    using assms(4,3) by (rule utf2latin_measure)
  have u2: "\<forall>b. int (length b) = sint (of_nat (length (utf2latin_bytes u)) + 1 :: 32 word) \<longrightarrow>
            utf2latin (Some (u @ 0 # rest')) (Some b) =
              Inr (of_nat (length (utf2latin_bytes u)) + 1, Some (utf2latin_bytes u @ [0]))"
  proof (intro allI impI)
    fix b :: "byte list"
    assume "int (length b) = sint (of_nat (length (utf2latin_bytes u)) + 1 :: 32 word)"
    with n2 have "length b = length (utf2latin_bytes u) + 1" by simp
    with assms(4,3) show "utf2latin (Some (u @ 0 # rest')) (Some b) =
              Inr (of_nat (length (utf2latin_bytes u)) + 1, Some (utf2latin_bytes u @ [0]))"
      by (rule utf2latin_fill)
  qed
  from n1 n2 l1 l2 u1 u2 show ?thesis by simp
qed

theorem charset_length_protocol_witness:
  "latin2utf (Some [0x41, 0xE4, 0, 0x55]) None = Inr (4, None)
   \<and> latin2utf (Some [0x41, 0xE4, 0, 0x55]) (Some [9, 9, 9, 9]) =
       Inr (4, Some [0x41, 0xC3, 0xA4, 0])
   \<and> utf2latin (Some [0x41, 0xC3, 0xA4, 0]) None = Inr (3, None)
   \<and> utf2latin (Some [0x41, 0xC3, 0xA4, 0]) (Some [7, 7, 7]) = Inr (3, Some [0x41, 0xE4, 0])"
  using charset_length_protocol[of "[0x41, 0xE4]" "[0x41, 0xC3, 0xA4]" "[0x55]" "[]"]
  by (simp add: latin2utf_bytes_def)

section \<open>Proofs: field names\<close>

lemma replace_invalid_chars_map:
  "replace_invalid_chars s = map (\<lambda>c. if isalnum c then c else CHR ''_'') s"
  by (induction s) simp_all

lemma get_column_names_map:
  "get_column_names cnames = map (map (\<lambda>c. if isalnum c then c else CHR ''_'')) cnames"
  by (induction cnames) (simp_all add: replace_invalid_chars_map)

lemma is_unique_iff: "is_unique fieldnames c \<longleftrightarrow> c \<notin> set fieldnames"
  by (induction fieldnames) auto

lemma find_suffix_ge: "100 \<le> k \<Longrightarrow> find_suffix fieldnames name k = k"
  by (simp add: find_suffix.simps[of fieldnames name k])

lemma find_suffix_hit:
  "k < 100 \<Longrightarrow> sprintf_s_d name k \<notin> set fieldnames \<Longrightarrow> find_suffix fieldnames name k = k"
  by (simp add: find_suffix.simps[of fieldnames name k] is_unique_iff)

lemma find_suffix_miss:
  "k < 100 \<Longrightarrow> sprintf_s_d name k \<in> set fieldnames \<Longrightarrow>
   find_suffix fieldnames name k = find_suffix fieldnames name (Suc k)"
  by (simp add: find_suffix.simps[of fieldnames name k] is_unique_iff)

lemma find_suffix_first:
  "s \<le> k \<Longrightarrow> k < 100 \<Longrightarrow> sprintf_s_d name k \<notin> set fieldnames \<Longrightarrow>
   (\<And>k'. s \<le> k' \<Longrightarrow> k' < k \<Longrightarrow> sprintf_s_d name k' \<in> set fieldnames) \<Longrightarrow>
   find_suffix fieldnames name s = k"
proof (induction "k - s" arbitrary: s)
  case 0
  then show ?case by (simp add: find_suffix_hit)
next
  case (Suc d)
  then have lt: "s < k" "s < 100" by simp_all
  with Suc.prems have taken: "sprintf_s_d name s \<in> set fieldnames" by simp
  have "find_suffix fieldnames name (Suc s) = k"
    using Suc.hyps(2) lt Suc.prems by (intro Suc.hyps(1)) simp_all
  with lt taken show ?case by (simp add: find_suffix_miss)
qed

lemma find_suffix_none:
  "(\<And>k'. s \<le> k' \<Longrightarrow> k' < 100 \<Longrightarrow> sprintf_s_d name k' \<in> set fieldnames) \<Longrightarrow> s \<le> 100 \<Longrightarrow>
   find_suffix fieldnames name s = 100"
proof (induction "100 - s" arbitrary: s)
  case 0
  then show ?case by (simp add: find_suffix_ge)
next
  case (Suc d)
  then have lt: "s < 100" by simp
  with Suc.prems have taken: "sprintf_s_d name s \<in> set fieldnames" by simp
  have "find_suffix fieldnames name (Suc s) = 100"
    using Suc.hyps(2) lt Suc.prems by (intro Suc.hyps(1)) simp_all
  with lt taken show ?case by (simp add: find_suffix_miss)
qed

lemma find_suffix_unique:
  "s \<le> 100 \<Longrightarrow>
   find_suffix fieldnames name s = 100 \<or>
   (find_suffix fieldnames name s < 100 \<and>
    sprintf_s_d name (find_suffix fieldnames name s) \<notin> set fieldnames)"
proof (induction "100 - s" arbitrary: s)
  case 0
  then show ?case by (simp add: find_suffix_ge)
next
  case (Suc d)
  then have lt: "s < 100" by simp
  show ?case
  proof (cases "sprintf_s_d name s \<in> set fieldnames")
    case True
    have "find_suffix fieldnames name (Suc s) = 100 \<or>
      (find_suffix fieldnames name (Suc s) < 100 \<and>
       sprintf_s_d name (find_suffix fieldnames name (Suc s)) \<notin> set fieldnames)"
      using Suc.hyps(2) lt by (intro Suc.hyps(1)) simp_all
    with lt True show ?thesis by (simp add: find_suffix_miss)
  next
    case False
    with lt show ?thesis by (simp add: find_suffix_hit)
  qed
qed

lemma rename_duplicate_cases:
  "rename_duplicate fieldnames jCol = (fieldnames, [MSG_MSGUNIQUEWARN]) \<or>
   (\<exists>c. c \<notin> set fieldnames \<and> rename_duplicate fieldnames jCol = (fieldnames[jCol := c], []))"
proof (cases "find_suffix fieldnames (fieldnames ! jCol) 1 = 100")
  case True
  then show ?thesis by (simp add: rename_duplicate_def)
next
  case False
  with find_suffix_unique[of 1 fieldnames "fieldnames ! jCol"]
  have "sprintf_s_d (fieldnames ! jCol) (find_suffix fieldnames (fieldnames ! jCol) 1)
       \<notin> set fieldnames"
    by simp
  with False have
    "sprintf_s_d (fieldnames ! jCol) (find_suffix fieldnames (fieldnames ! jCol) 1)
       \<notin> set fieldnames \<and>
     rename_duplicate fieldnames jCol =
       (fieldnames[jCol := sprintf_s_d (fieldnames ! jCol)
          (find_suffix fieldnames (fieldnames ! jCol) 1)], [])"
    by (simp add: rename_duplicate_def Let_def)
  then show ?thesis by blast
qed

lemma check_jCol_warnings:
  "check_jCol ncol iCol jCol fieldnames warnings = (fieldnames', warnings') \<Longrightarrow>
   \<exists>w. warnings' = warnings @ w"
proof (induction ncol iCol jCol fieldnames warnings rule: check_jCol.induct)
  case (1 ncol iCol jCol fieldnames warnings)
  note unfold = check_jCol.simps[of ncol iCol jCol fieldnames warnings]
  show ?case
  proof (cases "jCol < ncol")
    case False
    with "1.prems" show ?thesis by (simp add: unfold)
  next
    case True
    show ?thesis
    proof (cases "fieldnames ! iCol = fieldnames ! jCol")
      case False
      with True "1.prems" "1.IH"(2) show ?thesis by (simp add: unfold)
    next
      case eq: True
      obtain f2 w2 where r: "rename_duplicate fieldnames jCol = (f2, w2)"
        by (cases "rename_duplicate fieldnames jCol")
      with True eq "1.prems"
      have "check_jCol ncol iCol (jCol + 1) f2 (warnings @ w2) = (fieldnames', warnings')"
        by (simp add: unfold)
      with "1.IH"(1)[OF True eq r[symmetric]]
      obtain w where "warnings' = (warnings @ w2) @ w"
        by blast
      then show ?thesis by simp
    qed
  qed
qed

text \<open>
  The invariant of the two loops: every column before \<open>iCol\<close> differs from every later
  column, and column \<open>iCol\<close> differs from the columns before \<open>jCol\<close>.
\<close>

lemma check_jCol_resolved:
  "check_jCol ncol iCol jCol fieldnames warnings = (fieldnames', warnings') \<Longrightarrow>
   ncol = length fieldnames \<Longrightarrow> iCol < jCol \<Longrightarrow> warnings' = [] \<Longrightarrow>
   (\<And>a b. a < iCol \<Longrightarrow> a < b \<Longrightarrow> b < ncol \<Longrightarrow> fieldnames ! a \<noteq> fieldnames ! b) \<Longrightarrow>
   (\<And>b. iCol < b \<Longrightarrow> b < jCol \<Longrightarrow> fieldnames ! iCol \<noteq> fieldnames ! b) \<Longrightarrow>
   length fieldnames' = ncol \<and>
   (\<forall>a b. a \<le> iCol \<longrightarrow> a < b \<longrightarrow> b < ncol \<longrightarrow> fieldnames' ! a \<noteq> fieldnames' ! b)"
proof (induction ncol iCol jCol fieldnames warnings rule: check_jCol.induct)
  case (1 ncol iCol jCol fieldnames warnings)
  note unfold = check_jCol.simps[of ncol iCol jCol fieldnames warnings]
  show ?case
  proof (cases "jCol < ncol")
    case False
    with "1.prems"(1) have same: "fieldnames' = fieldnames" by (simp add: unfold)
    have "fieldnames ! a \<noteq> fieldnames ! b" if "a \<le> iCol" "a < b" "b < ncol" for a b
    proof (cases "a = iCol")
      case True
      with that False "1.prems"(6)[of b] show ?thesis by simp
    next
      case False
      with that "1.prems"(5)[of a b] show ?thesis by simp
    qed
    with same "1.prems"(2) show ?thesis by simp
  next
    case True
    show ?thesis
    proof (cases "fieldnames ! iCol = fieldnames ! jCol")
      case False
      with True "1.prems"(1)
      have run: "check_jCol ncol iCol (jCol + 1) fieldnames warnings = (fieldnames', warnings')"
        by (simp add: unfold)
      have "fieldnames ! iCol \<noteq> fieldnames ! b" if "iCol < b" "b < jCol + 1" for b
        using that False "1.prems"(6)[of b] by (cases "b = jCol") simp_all
      with "1.IH"(2)[OF True False run "1.prems"(2) _ "1.prems"(4) "1.prems"(5)] "1.prems"(3)
      show ?thesis by simp
    next
      case eq: True
      from rename_duplicate_cases[of fieldnames jCol] show ?thesis
      proof
        assume warn: "rename_duplicate fieldnames jCol = (fieldnames, [MSG_MSGUNIQUEWARN])"
        with True eq "1.prems"(1)
        have run: "check_jCol ncol iCol (jCol + 1) fieldnames (warnings @ [MSG_MSGUNIQUEWARN])
            = (fieldnames', warnings')"
          by (simp add: unfold)
        have "\<exists>w. warnings' = (warnings @ [MSG_MSGUNIQUEWARN]) @ w"
          using run by (rule check_jCol_warnings)
        with "1.prems"(4) show ?thesis by simp
      next
        assume "\<exists>c. c \<notin> set fieldnames \<and>
          rename_duplicate fieldnames jCol = (fieldnames[jCol := c], [])"
        then obtain c where c: "c \<notin> set fieldnames"
          and r: "rename_duplicate fieldnames jCol = (fieldnames[jCol := c], [])" by blast
        with True eq "1.prems"(1)
        have run: "check_jCol ncol iCol (jCol + 1) (fieldnames[jCol := c]) (warnings @ [])
            = (fieldnames', warnings')"
          by (simp add: unfold)
        have fresh: "fieldnames ! a \<noteq> c" if "a < ncol" for a
          using that c "1.prems"(2) by (metis nth_mem)
        have inv1: "fieldnames[jCol := c] ! a \<noteq> fieldnames[jCol := c] ! b"
          if "a < iCol" "a < b" "b < ncol" for a b
          using that "1.prems"(2,3) "1.prems"(5)[of a b] fresh[of a] True
          by (cases "b = jCol") simp_all
        have inv2: "fieldnames[jCol := c] ! iCol \<noteq> fieldnames[jCol := c] ! b"
          if "iCol < b" "b < jCol + 1" for b
          using that "1.prems"(2,3) "1.prems"(6)[of b] fresh[of iCol] True
          by (cases "b = jCol") simp_all
        have len: "ncol = length (fieldnames[jCol := c])" using "1.prems"(2) by simp
        from "1.IH"(1)[OF True eq r[symmetric] run len _ "1.prems"(4) inv1 inv2] "1.prems"(3)
        show ?thesis by simp
      qed
    qed
  qed
qed

lemma check_iCol_warnings:
  "check_iCol ncol iCol fieldnames warnings = (fieldnames', warnings') \<Longrightarrow>
   \<exists>w. warnings' = warnings @ w"
proof (induction ncol iCol fieldnames warnings rule: check_iCol.induct)
  case (1 ncol iCol fieldnames warnings)
  note unfold = check_iCol.simps[of ncol iCol fieldnames warnings]
  show ?case
  proof (cases "iCol + 1 < ncol")
    case False
    with "1.prems" show ?thesis by (simp add: unfold)
  next
    case True
    obtain f2 w2 where r: "check_jCol ncol iCol (iCol + 1) fieldnames warnings = (f2, w2)"
      by (cases "check_jCol ncol iCol (iCol + 1) fieldnames warnings")
    with True "1.prems" have run: "check_iCol ncol (iCol + 1) f2 w2 = (fieldnames', warnings')"
      by (simp add: unfold)
    from check_jCol_warnings[OF r] obtain w where w: "w2 = warnings @ w" by blast
    from "1.IH"[OF True r[symmetric] run] obtain w' where "warnings' = w2 @ w'" by blast
    with w show ?thesis by simp
  qed
qed

lemma check_iCol_distinct:
  "check_iCol ncol iCol fieldnames warnings = (fieldnames', warnings') \<Longrightarrow>
   ncol = length fieldnames \<Longrightarrow> warnings' = [] \<Longrightarrow>
   (\<And>a b. a < iCol \<Longrightarrow> a < b \<Longrightarrow> b < ncol \<Longrightarrow> fieldnames ! a \<noteq> fieldnames ! b) \<Longrightarrow>
   length fieldnames' = ncol \<and> distinct fieldnames'"
proof (induction ncol iCol fieldnames warnings rule: check_iCol.induct)
  case (1 ncol iCol fieldnames warnings)
  note unfold = check_iCol.simps[of ncol iCol fieldnames warnings]
  show ?case
  proof (cases "iCol + 1 < ncol")
    case False
    with "1.prems"(1) have same: "fieldnames' = fieldnames" by (simp add: unfold)
    have "fieldnames ! a \<noteq> fieldnames ! b" if "a < b" "b < length fieldnames" for a b
      using that False "1.prems"(2) "1.prems"(4)[of a b] by simp
    then have "distinct fieldnames"
      by (metis distinct_conv_nth nat_neq_iff)
    with same "1.prems"(2) show ?thesis by simp
  next
    case True
    obtain f2 w2 where r: "check_jCol ncol iCol (iCol + 1) fieldnames warnings = (f2, w2)"
      by (cases "check_jCol ncol iCol (iCol + 1) fieldnames warnings")
    with True "1.prems"(1)
    have run: "check_iCol ncol (iCol + 1) f2 w2 = (fieldnames', warnings')"
      by (simp add: unfold)
    from check_iCol_warnings[OF run] "1.prems"(3) have w2: "w2 = []" by simp
    have inner: "length f2 = ncol \<and>
      (\<forall>a b. a \<le> iCol \<longrightarrow> a < b \<longrightarrow> b < ncol \<longrightarrow> f2 ! a \<noteq> f2 ! b)"
      using r "1.prems"(2) _ w2 "1.prems"(4)
      by (rule check_jCol_resolved) simp_all
    then have len: "ncol = length f2"
      and inv: "\<And>a b. a < iCol + 1 \<Longrightarrow> a < b \<Longrightarrow> b < ncol \<Longrightarrow> f2 ! a \<noteq> f2 ! b"
      by simp_all
    from "1.IH"[OF True r[symmetric] run len "1.prems"(3) inv] show ?thesis by simp
  qed
qed

lemma check_jCol_stop:
  "\<not> jCol < ncol \<Longrightarrow> check_jCol ncol iCol jCol fieldnames warnings = (fieldnames, warnings)"
  by (simp add: check_jCol.simps[of ncol iCol jCol fieldnames warnings])

lemma check_iCol_stop:
  "\<not> iCol + 1 < ncol \<Longrightarrow> check_iCol ncol iCol fieldnames warnings = (fieldnames, warnings)"
  by (simp add: check_iCol.simps[of ncol iCol fieldnames warnings])

lemma check_jCol_unchanged:
  "(\<And>b. jCol \<le> b \<Longrightarrow> b < ncol \<Longrightarrow> fieldnames ! iCol \<noteq> fieldnames ! b) \<Longrightarrow>
   check_jCol ncol iCol jCol fieldnames warnings = (fieldnames, warnings)"
proof (induction "ncol - jCol" arbitrary: jCol)
  case 0
  then have "\<not> jCol < ncol" by simp
  then show ?case by (rule check_jCol_stop)
next
  case (Suc d)
  then have lt: "jCol < ncol" by simp
  with Suc.prems[of jCol] have ne: "fieldnames ! iCol \<noteq> fieldnames ! jCol" by simp
  have "check_jCol ncol iCol (jCol + 1) fieldnames warnings = (fieldnames, warnings)"
    using Suc.hyps(2) Suc.prems by (intro Suc.hyps(1)) simp_all
  with lt ne show ?case by (simp add: check_jCol.simps[of ncol iCol jCol])
qed

lemma check_iCol_unchanged:
  "distinct fieldnames \<Longrightarrow> ncol = length fieldnames \<Longrightarrow>
   check_iCol ncol iCol fieldnames warnings = (fieldnames, warnings)"
proof (induction "ncol - iCol" arbitrary: iCol)
  case 0
  then have "\<not> iCol + 1 < ncol" by simp
  then show ?case by (rule check_iCol_stop)
next
  case (Suc d)
  show ?case
  proof (cases "iCol + 1 < ncol")
    case False
    then show ?thesis by (rule check_iCol_stop)
  next
    case True
    have "fieldnames ! iCol \<noteq> fieldnames ! b" if "iCol + 1 \<le> b" "b < ncol" for b
      using that Suc.prems by (simp add: distinct_conv_nth)
    then have inner: "check_jCol ncol iCol (iCol + 1) fieldnames warnings = (fieldnames, warnings)"
      by (rule check_jCol_unchanged)
    have "check_iCol ncol (iCol + 1) fieldnames warnings = (fieldnames, warnings)"
      using Suc.hyps(2) Suc.prems by (intro Suc.hyps(1)) simp_all
    with True inner show ?thesis by (simp add: check_iCol.simps[of ncol iCol])
  qed
qed

lemma length_get_column_names: "length (get_column_names cnames) = length cnames"
  by (simp add: get_column_names_map)

lemma sprintf_d_digits:
  "(k < 10 \<longrightarrow> sprintf_d k = [''0123456789'' ! k])
   \<and> (10 \<le> k \<and> k < 100 \<longrightarrow> sprintf_d k = [''0123456789'' ! (k div 10), ''0123456789'' ! (k mod 10)])"
  by (simp add: digit_char_def) presburger

lemma three_a_result:
  "check_iCol (length [''a'', ''a'', ''a'']) 0 (get_column_names [''a'', ''a'', ''a'']) [] =
     ([''a'', ''a_1'', ''a_2''], [])"
  by code_simp

lemma length_rename_duplicate: "length (fst (rename_duplicate fieldnames jCol)) = length fieldnames"
  using rename_duplicate_cases[of fieldnames jCol] by auto

lemma check_jCol_length:
  "length (fst (check_jCol ncol iCol jCol fieldnames warnings)) = length fieldnames"
proof (induction ncol iCol jCol fieldnames warnings rule: check_jCol.induct)
  case (1 ncol iCol jCol fieldnames warnings)
  note unfold = check_jCol.simps[of ncol iCol jCol fieldnames warnings]
  show ?case
  proof (cases "jCol < ncol")
    case False
    then show ?thesis by (simp add: unfold)
  next
    case True
    show ?thesis
    proof (cases "fieldnames ! iCol = fieldnames ! jCol")
      case False
      with True "1.IH"(2) show ?thesis by (simp add: unfold)
    next
      case eq: True
      obtain f2 w2 where r: "rename_duplicate fieldnames jCol = (f2, w2)"
        by (cases "rename_duplicate fieldnames jCol")
      with length_rename_duplicate[of fieldnames jCol] have "length f2 = length fieldnames"
        by simp
      with True eq r "1.IH"(1)[OF True eq r[symmetric]] show ?thesis by (simp add: unfold)
    qed
  qed
qed

lemma check_iCol_length:
  "length (fst (check_iCol ncol iCol fieldnames warnings)) = length fieldnames"
proof (induction ncol iCol fieldnames warnings rule: check_iCol.induct)
  case (1 ncol iCol fieldnames warnings)
  note unfold = check_iCol.simps[of ncol iCol fieldnames warnings]
  show ?case
  proof (cases "iCol + 1 < ncol")
    case False
    then show ?thesis by (simp add: unfold)
  next
    case True
    obtain f2 w2 where r: "check_jCol ncol iCol (iCol + 1) fieldnames warnings = (f2, w2)"
      by (cases "check_jCol ncol iCol (iCol + 1) fieldnames warnings")
    with check_jCol_length[of ncol iCol "iCol + 1" fieldnames warnings]
    have "length f2 = length fieldnames" by simp
    with True r "1.IH"[OF True r[symmetric]] show ?thesis by (simp add: unfold)
  qed
qed

lemma find_suffix_exhausted:
  "s \<le> 100 \<Longrightarrow> find_suffix fieldnames name s = 100 \<Longrightarrow> s \<le> k \<Longrightarrow> k < 100 \<Longrightarrow>
   sprintf_s_d name k \<in> set fieldnames"
proof (induction "100 - s" arbitrary: s)
  case 0
  then show ?case by simp
next
  case (Suc d)
  then have lt: "s < 100" by simp
  show ?case
  proof (cases "sprintf_s_d name s \<in> set fieldnames")
    case False
    with lt have "find_suffix fieldnames name s = s" by (simp add: find_suffix_hit)
    with Suc.prems(2) lt show ?thesis by simp
  next
    case True
    with lt Suc.prems(2) have next_one: "find_suffix fieldnames name (Suc s) = 100"
      by (simp add: find_suffix_miss)
    show ?thesis
    proof (cases "k = s")
      case True
      with \<open>sprintf_s_d name s \<in> set fieldnames\<close> show ?thesis by simp
    next
      case False
      with Suc.prems(3) have "Suc s \<le> k" by simp
      moreover have "d = 100 - Suc s" using Suc.hyps(2) by simp
      moreover have "Suc s \<le> 100" using lt by simp
      ultimately show ?thesis using next_one Suc.prems(4) Suc.hyps(1) by blast
    qed
  qed
qed

lemma find_suffix_range: "s \<le> 100 \<Longrightarrow> s \<le> find_suffix fieldnames name s \<and> find_suffix fieldnames name s \<le> 100"
proof (induction "100 - s" arbitrary: s)
  case 0
  then show ?case by (simp add: find_suffix_ge)
next
  case (Suc d)
  then have lt: "s < 100" by simp
  show ?case
  proof (cases "sprintf_s_d name s \<in> set fieldnames")
    case False
    with lt show ?thesis by (simp add: find_suffix_hit)
  next
    case True
    have "Suc s \<le> find_suffix fieldnames name (Suc s) \<and> find_suffix fieldnames name (Suc s) \<le> 100"
      using Suc.hyps(2) lt by (intro Suc.hyps(1)) simp_all
    with lt True show ?thesis by (simp add: find_suffix_miss)
  qed
qed

text \<open>
  What one renaming does: either all 99 candidates are borne by columns, the names
  stay and the warning is raised, or column \<open>jCol\<close> takes a candidate that no column
  bears.
\<close>

lemma rename_duplicate_step:
  "(rename_duplicate fieldnames jCol = (fieldnames, [MSG_MSGUNIQUEWARN])
      \<and> (\<forall>k. 1 \<le> k \<and> k < 100 \<longrightarrow> sprintf_s_d (fieldnames ! jCol) k \<in> set fieldnames))
   \<or> (\<exists>k. 1 \<le> k \<and> k < 100 \<and> sprintf_s_d (fieldnames ! jCol) k \<notin> set fieldnames
        \<and> rename_duplicate fieldnames jCol =
            (fieldnames[jCol := sprintf_s_d (fieldnames ! jCol) k], []))"
proof (cases "find_suffix fieldnames (fieldnames ! jCol) 1 = 100")
  case True
  then have "\<forall>k. 1 \<le> k \<and> k < 100 \<longrightarrow> sprintf_s_d (fieldnames ! jCol) k \<in> set fieldnames"
    using find_suffix_exhausted[of 1 fieldnames "fieldnames ! jCol"] by simp
  with True show ?thesis by (simp add: rename_duplicate_def)
next
  case False
  define k where "k = find_suffix fieldnames (fieldnames ! jCol) 1"
  from find_suffix_range[of 1 fieldnames "fieldnames ! jCol"] False
  have range: "1 \<le> k" "k < 100" by (simp_all add: k_def)
  from find_suffix_unique[of 1 fieldnames "fieldnames ! jCol"] False
  have free: "sprintf_s_d (fieldnames ! jCol) k \<notin> set fieldnames" by (simp add: k_def)
  have "rename_duplicate fieldnames jCol =
      (fieldnames[jCol := sprintf_s_d (fieldnames ! jCol) k], [])"
    using False by (simp add: rename_duplicate_def Let_def k_def)
  with range free show ?thesis by blast
qed

text \<open>
  The warning is raised only on exhaustion. Through both loops: when a warning has been
  raised, some column bears a name all of whose 99 candidates are borne by columns.
  A renaming keeps every name in use, because the renamed column shared its name with
  column \<open>iCol\<close>, and it does not touch a column whose candidates are all taken.
\<close>

lemma rename_keeps_exhausted:
  assumes eq: "fieldnames ! iCol = fieldnames ! jCol" and ij: "iCol < jCol"
    and j: "jCol < length fieldnames"
    and r: "rename_duplicate fieldnames jCol = (fieldnames', w)"
    and inv: "warnings \<noteq> [] \<longrightarrow>
        (\<exists>c < length fieldnames. \<forall>k. 1 \<le> k \<and> k < 100 \<longrightarrow>
            sprintf_s_d (fieldnames ! c) k \<in> set fieldnames)"
  shows "length fieldnames' = length fieldnames
      \<and> (warnings @ w \<noteq> [] \<longrightarrow>
        (\<exists>c < length fieldnames'. \<forall>k. 1 \<le> k \<and> k < 100 \<longrightarrow>
            sprintf_s_d (fieldnames' ! c) k \<in> set fieldnames'))"
proof -
  from rename_duplicate_step[of fieldnames jCol]
  consider (warn) "rename_duplicate fieldnames jCol = (fieldnames, [MSG_MSGUNIQUEWARN])"
      "\<forall>k. 1 \<le> k \<and> k < 100 \<longrightarrow> sprintf_s_d (fieldnames ! jCol) k \<in> set fieldnames"
    | (renamed) k where "1 \<le> k" "k < 100" "sprintf_s_d (fieldnames ! jCol) k \<notin> set fieldnames"
      "rename_duplicate fieldnames jCol = (fieldnames[jCol := sprintf_s_d (fieldnames ! jCol) k], [])"
    by blast
  then show ?thesis
  proof cases
    case warn
    with r have "fieldnames' = fieldnames" by simp
    with warn(2) j show ?thesis by blast
  next
    case renamed
    with r have f': "fieldnames' = fieldnames[jCol := sprintf_s_d (fieldnames ! jCol) k]"
      and w: "w = []" by simp_all
    have len: "length fieldnames' = length fieldnames" by (simp add: f')
    have keep: "set fieldnames \<subseteq> set fieldnames'"
    proof
      fix x assume "x \<in> set fieldnames"
      then obtain m where m: "m < length fieldnames" "fieldnames ! m = x"
        by (auto simp: in_set_conv_nth)
      show "x \<in> set fieldnames'"
      proof (cases "m = jCol")
        case False
        with m have "fieldnames' ! m = x" "m < length fieldnames'" by (simp_all add: f')
        then show ?thesis by (metis nth_mem)
      next
        case True
        with m eq have "fieldnames ! iCol = x" by simp
        moreover have "iCol \<noteq> jCol" "iCol < length fieldnames" using ij j by simp_all
        ultimately have "fieldnames' ! iCol = x" "iCol < length fieldnames'" by (simp_all add: f')
        then show ?thesis by (metis nth_mem)
      qed
    qed
    have "\<exists>c < length fieldnames'. \<forall>k. 1 \<le> k \<and> k < 100 \<longrightarrow>
            sprintf_s_d (fieldnames' ! c) k \<in> set fieldnames'" if "warnings \<noteq> []"
    proof -
      from inv that obtain c where c: "c < length fieldnames"
        "\<forall>k. 1 \<le> k \<and> k < 100 \<longrightarrow> sprintf_s_d (fieldnames ! c) k \<in> set fieldnames"
        by blast
      have "c \<noteq> jCol" using c(2) renamed(1,2,3) by blast
      then have "fieldnames' ! c = fieldnames ! c" by (simp add: f')
      with c keep len show ?thesis by (metis subsetD)
    qed
    with len w show ?thesis by simp
  qed
qed

lemma check_jCol_exhausted:
  "check_jCol ncol iCol jCol fieldnames warnings = (fieldnames', warnings') \<Longrightarrow>
   ncol = length fieldnames \<Longrightarrow> iCol < jCol \<Longrightarrow>
   (warnings \<noteq> [] \<longrightarrow>
      (\<exists>c < length fieldnames. \<forall>k. 1 \<le> k \<and> k < 100 \<longrightarrow>
          sprintf_s_d (fieldnames ! c) k \<in> set fieldnames)) \<Longrightarrow>
   length fieldnames' = ncol
   \<and> (warnings' \<noteq> [] \<longrightarrow>
      (\<exists>c < length fieldnames'. \<forall>k. 1 \<le> k \<and> k < 100 \<longrightarrow>
          sprintf_s_d (fieldnames' ! c) k \<in> set fieldnames'))"
proof (induction ncol iCol jCol fieldnames warnings rule: check_jCol.induct)
  case (1 ncol iCol jCol fieldnames warnings)
  note unfold = check_jCol.simps[of ncol iCol jCol fieldnames warnings]
  show ?case
  proof (cases "jCol < ncol")
    case False
    from check_jCol_stop[OF False, of iCol fieldnames warnings] "1.prems"(1)
    have "fieldnames' = fieldnames" "warnings' = warnings" by simp_all
    with "1.prems"(2,4) show ?thesis by simp
  next
    case True
    show ?thesis
    proof (cases "fieldnames ! iCol = fieldnames ! jCol")
      case False
      with True "1.prems"(1)
      have "check_jCol ncol iCol (jCol + 1) fieldnames warnings = (fieldnames', warnings')"
        by (simp add: unfold)
      moreover have "iCol < jCol + 1" using "1.prems"(3) by simp
      ultimately show ?thesis
        using "1.IH"(2)[OF True False _ "1.prems"(2) _ "1.prems"(4)] by blast
    next
      case eq: True
      obtain f2 w2 where r: "rename_duplicate fieldnames jCol = (f2, w2)"
        by (cases "rename_duplicate fieldnames jCol")
      with True eq "1.prems"(1)
      have run: "check_jCol ncol iCol (jCol + 1) f2 (warnings @ w2) = (fieldnames', warnings')"
        by (simp add: unfold)
      have j: "jCol < length fieldnames" using True "1.prems"(2) by simp
      from rename_keeps_exhausted[OF eq "1.prems"(3) j r "1.prems"(4)]
      have k: "length f2 = length fieldnames"
        "warnings @ w2 \<noteq> [] \<longrightarrow>
          (\<exists>c < length f2. \<forall>k. 1 \<le> k \<and> k < 100 \<longrightarrow> sprintf_s_d (f2 ! c) k \<in> set f2)"
        by blast+
      have n2: "ncol = length f2" using k(1) "1.prems"(2) by simp
      have lt: "iCol < jCol + 1" using "1.prems"(3) by simp
      from "1.IH"(1)[OF True eq r[symmetric] run n2 lt k(2)] show ?thesis .
    qed
  qed
qed

lemma check_iCol_exhausted:
  "check_iCol ncol iCol fieldnames warnings = (fieldnames', warnings') \<Longrightarrow>
   ncol = length fieldnames \<Longrightarrow>
   (warnings \<noteq> [] \<longrightarrow>
      (\<exists>c < length fieldnames. \<forall>k. 1 \<le> k \<and> k < 100 \<longrightarrow>
          sprintf_s_d (fieldnames ! c) k \<in> set fieldnames)) \<Longrightarrow>
   length fieldnames' = ncol
   \<and> (warnings' \<noteq> [] \<longrightarrow>
      (\<exists>c < length fieldnames'. \<forall>k. 1 \<le> k \<and> k < 100 \<longrightarrow>
          sprintf_s_d (fieldnames' ! c) k \<in> set fieldnames'))"
proof (induction ncol iCol fieldnames warnings rule: check_iCol.induct)
  case (1 ncol iCol fieldnames warnings)
  note unfold = check_iCol.simps[of ncol iCol fieldnames warnings]
  show ?case
  proof (cases "iCol + 1 < ncol")
    case False
    from check_iCol_stop[OF False, of fieldnames warnings] "1.prems"(1)
    have "fieldnames' = fieldnames" "warnings' = warnings" by simp_all
    with "1.prems"(2,3) show ?thesis by simp
  next
    case True
    obtain f2 w2 where r: "check_jCol ncol iCol (iCol + 1) fieldnames warnings = (f2, w2)"
      by (cases "check_jCol ncol iCol (iCol + 1) fieldnames warnings")
    with True "1.prems"(1) have run: "check_iCol ncol (iCol + 1) f2 w2 = (fieldnames', warnings')"
      by (simp add: unfold)
    have lt: "iCol < iCol + 1" by simp
    from check_jCol_exhausted[OF r "1.prems"(2) lt "1.prems"(3)]
    have k: "length f2 = ncol"
      "w2 \<noteq> [] \<longrightarrow> (\<exists>c < length f2. \<forall>k. 1 \<le> k \<and> k < 100 \<longrightarrow> sprintf_s_d (f2 ! c) k \<in> set f2)"
      by blast+
    from "1.IH"[OF True r[symmetric] run k(1)[symmetric] k(2)] show ?thesis .
  qed
qed

lemma three_b_result:
  "check_iCol (length [''a'', ''b'', ''b'']) 0 (get_column_names [''a'', ''b'', ''b'']) [] =
     ([''a'', ''b'', ''b_1''], [])"
  by code_simp

text \<open>
  The 99 candidates of a name are 99 different names, none of them the name itself. So
  a column whose candidates are all borne by columns needs a result of a hundred
  columns or more.
\<close>

lemma digit_inj:
  "a < 10 \<Longrightarrow> b < 10 \<Longrightarrow> ''0123456789'' ! a = ''0123456789'' ! b \<Longrightarrow> a = b"
proof -
  assume a: "a < 10" "b < 10" "''0123456789'' ! a = ''0123456789'' ! b"
  have "distinct ''0123456789''" by simp
  moreover have "a < length ''0123456789''" "b < length ''0123456789''" using a by simp_all
  ultimately show "a = b" using a(3) by (simp only: nth_eq_iff_index_eq)
qed

lemma sprintf_d_inj:
  assumes "k < 100" and "k' < 100" and "sprintf_d k = sprintf_d k'"
  shows "k = k'"
proof -
  note dk = sprintf_d_digits[of k] and dk' = sprintf_d_digits[of k']
  show ?thesis
  proof (cases "k < 10")
    case True
    show ?thesis
    proof (cases "k' < 10")
      case k': True
      with True dk dk' assms(3)
      have "''0123456789'' ! k = ''0123456789'' ! k'" by simp
      with True k' show ?thesis by (rule digit_inj)
    next
      case False
      with True dk dk' assms(2,3) have "length (sprintf_d k) \<noteq> length (sprintf_d k')"
        by simp
      with assms(3) show ?thesis by simp
    qed
  next
    case False
    show ?thesis
    proof (cases "k' < 10")
      case True
      with False dk dk' assms(1,3) have "length (sprintf_d k) \<noteq> length (sprintf_d k')"
        by simp
      with assms(3) show ?thesis by simp
    next
      case k': False
      with False dk dk' assms
      have "''0123456789'' ! (k div 10) = ''0123456789'' ! (k' div 10)"
        "''0123456789'' ! (k mod 10) = ''0123456789'' ! (k' mod 10)"
        by simp_all
      moreover have "k div 10 < 10" "k' div 10 < 10" "k mod 10 < 10" "k' mod 10 < 10"
        using assms(1,2) by simp_all
      ultimately have "k div 10 = k' div 10" "k mod 10 = k' mod 10"
        by (blast intro: digit_inj)+
      then show ?thesis by (metis div_mult_mod_eq)
    qed
  qed
qed

lemma exhausted_columns:
  assumes c: "c < length fieldnames"
    and all: "\<forall>k. 1 \<le> k \<and> k < 100 \<longrightarrow> sprintf_s_d (fieldnames ! c) k \<in> set fieldnames"
  shows "100 \<le> length fieldnames"
proof -
  let ?f = "\<lambda>k. sprintf_s_d (fieldnames ! c) k"
  have inj: "inj_on ?f {1..<100}"
  proof (rule inj_onI)
    fix x y assume "x \<in> {1..<100}" "y \<in> {1..<100}" "?f x = ?f y"
    then have "x < 100" "y < 100" "sprintf_d x = sprintf_d y"
      by (simp_all add: sprintf_s_d_def)
    then show "x = y" by (rule sprintf_d_inj)
  qed
  have sub: "?f ` {1..<100} \<subseteq> set fieldnames - {fieldnames ! c}"
  proof
    fix x assume "x \<in> ?f ` {1..<100}"
    then obtain k where k: "1 \<le> k" "k < 100" "x = ?f k" by auto
    with all have "x \<in> set fieldnames" by simp
    moreover have "length x \<noteq> length (fieldnames ! c)" using k(3) by (simp add: sprintf_s_d_def)
    ultimately show "x \<in> set fieldnames - {fieldnames ! c}" by auto
  qed
  have "card (?f ` {1..<100}) = 99" using inj by (simp add: card_image)
  moreover have "card (?f ` {1..<100}) \<le> card (set fieldnames - {fieldnames ! c})"
    using sub by (intro card_mono) simp_all
  moreover have "card (set fieldnames - {fieldnames ! c}) < card (set fieldnames)"
    using c by (intro card_Diff1_less) simp_all
  moreover have "card (set fieldnames) \<le> length fieldnames" by (rule card_length)
  ultimately show ?thesis by simp
qed

text \<open>
  C8. Duplicate field names. Every name is first cleaned: each character that is not
  alphanumeric becomes \<open>_\<close>. A column \<open>jCol\<close> whose name equals that of an earlier column
  \<open>iCol\<close> is renamed by the step \<open>rename_duplicate\<close>: the candidates are the name followed
  by \<open>_k\<close> for \<open>k\<close> from 1 to 99 in decimal, each compared with all current names, and the
  first one that no column bears is assigned; when all 99 are taken the names stay as
  they are and the warning is raised. Three columns \<open>a\<close> become \<open>a\<close>, \<open>a_1\<close>, \<open>a_2\<close>.
  Names that are distinct after cleaning are left alone, and a run without a warning
  ends with distinct names. The names of the result are those the two loops leave:
  the outer loop takes every column \<open>iCol\<close> but the last in turn and runs the inner loop
  over the columns behind it. A warning is raised only on exhaustion: when there is
  one, the result has a column all of whose 99 candidates are borne by columns, so a
  result of fewer than a hundred columns ends without a warning and with distinct
  names; columns \<open>a\<close>, \<open>b\<close>, \<open>b\<close> become \<open>a\<close>, \<open>b\<close>, \<open>b_1\<close>.
\<close>

theorem duplicate_fieldname_resolution:
  assumes "check4uniquefields cfg"
  shows "get_column_names cnames = map (map (\<lambda>c. if isalnum c then c else CHR ''_'')) cnames
     \<and> (jCol < ncol \<and> fieldnames ! iCol = fieldnames ! jCol \<longrightarrow>
          check_jCol ncol iCol jCol fieldnames warnings =
            (case rename_duplicate fieldnames jCol of
               (fieldnames', w) \<Rightarrow> check_jCol ncol iCol (jCol + 1) fieldnames' (warnings @ w)))
     \<and> (jCol < ncol \<and> fieldnames ! iCol \<noteq> fieldnames ! jCol \<longrightarrow>
          check_jCol ncol iCol jCol fieldnames warnings =
            check_jCol ncol iCol (jCol + 1) fieldnames warnings)
     \<and> (1 \<le> k \<and> k < 100 \<and> fieldnames ! jCol @ ''_'' @ sprintf_d k \<notin> set fieldnames
          \<and> (\<forall>k'. 1 \<le> k' \<and> k' < k \<longrightarrow> fieldnames ! jCol @ ''_'' @ sprintf_d k' \<in> set fieldnames)
        \<longrightarrow> rename_duplicate fieldnames jCol =
              (fieldnames[jCol := fieldnames ! jCol @ ''_'' @ sprintf_d k], []))
     \<and> ((\<forall>k. 1 \<le> k \<and> k < 100 \<longrightarrow> fieldnames ! jCol @ ''_'' @ sprintf_d k \<in> set fieldnames)
        \<longrightarrow> rename_duplicate fieldnames jCol = (fieldnames, [MSG_MSGUNIQUEWARN]))
     \<and> (d < 10 \<longrightarrow> sprintf_d d = [''0123456789'' ! d])
     \<and> (10 \<le> d \<and> d < 100 \<longrightarrow> sprintf_d d = [''0123456789'' ! (d div 10), ''0123456789'' ! (d mod 10)])
     \<and> fieldnames_of_result cfg [''a'', ''a'', ''a''] = ([''a'', ''a_1'', ''a_2''], [])
     \<and> (distinct (get_column_names cnames) \<longrightarrow>
          fieldnames_of_result cfg cnames = (get_column_names cnames, []))
     \<and> (snd (fieldnames_of_result cfg cnames) = [] \<longrightarrow>
          distinct (fst (fieldnames_of_result cfg cnames)))
     \<and> length (fst (fieldnames_of_result cfg cnames)) = length cnames
     \<and> fieldnames_of_result cfg cnames =
          check_iCol (length cnames) 0 (get_column_names cnames) []
     \<and> (iCol + 1 < ncol \<longrightarrow>
          check_iCol ncol iCol fieldnames warnings =
            (case check_jCol ncol iCol (iCol + 1) fieldnames warnings of
               (fieldnames', warnings') \<Rightarrow> check_iCol ncol (iCol + 1) fieldnames' warnings'))
     \<and> (\<not> iCol + 1 < ncol \<longrightarrow>
          check_iCol ncol iCol fieldnames warnings = (fieldnames, warnings))
     \<and> (\<not> jCol < ncol \<longrightarrow>
          check_jCol ncol iCol jCol fieldnames warnings = (fieldnames, warnings))
     \<and> (snd (fieldnames_of_result cfg cnames) \<noteq> [] \<longrightarrow>
          (\<exists>c < length cnames. \<forall>k. 1 \<le> k \<and> k < 100 \<longrightarrow>
              fst (fieldnames_of_result cfg cnames) ! c @ ''_'' @ sprintf_d k
                \<in> set (fst (fieldnames_of_result cfg cnames))))
     \<and> (length cnames < 100 \<longrightarrow>
          snd (fieldnames_of_result cfg cnames) = []
          \<and> distinct (fst (fieldnames_of_result cfg cnames)))
     \<and> fieldnames_of_result cfg [''a'', ''b'', ''b''] = ([''a'', ''b'', ''b_1''], [])"
proof -
  have clean: "get_column_names cnames = map (map (\<lambda>c. if isalnum c then c else CHR ''_'')) cnames"
    by (rule get_column_names_map)
  have loop1: "jCol < ncol \<and> fieldnames ! iCol = fieldnames ! jCol \<longrightarrow>
          check_jCol ncol iCol jCol fieldnames warnings =
            (case rename_duplicate fieldnames jCol of
               (fieldnames', w) \<Rightarrow> check_jCol ncol iCol (jCol + 1) fieldnames' (warnings @ w))"
    by (simp add: check_jCol.simps[of ncol iCol jCol fieldnames warnings])
  have loop2: "jCol < ncol \<and> fieldnames ! iCol \<noteq> fieldnames ! jCol \<longrightarrow>
          check_jCol ncol iCol jCol fieldnames warnings =
            check_jCol ncol iCol (jCol + 1) fieldnames warnings"
    by (simp add: check_jCol.simps[of ncol iCol jCol fieldnames warnings])
  have first: "1 \<le> k \<and> k < 100 \<and> fieldnames ! jCol @ ''_'' @ sprintf_d k \<notin> set fieldnames
          \<and> (\<forall>k'. 1 \<le> k' \<and> k' < k \<longrightarrow> fieldnames ! jCol @ ''_'' @ sprintf_d k' \<in> set fieldnames)
        \<longrightarrow> rename_duplicate fieldnames jCol =
              (fieldnames[jCol := fieldnames ! jCol @ ''_'' @ sprintf_d k], [])"
  proof
    assume a: "1 \<le> k \<and> k < 100 \<and> fieldnames ! jCol @ ''_'' @ sprintf_d k \<notin> set fieldnames
          \<and> (\<forall>k'. 1 \<le> k' \<and> k' < k \<longrightarrow> fieldnames ! jCol @ ''_'' @ sprintf_d k' \<in> set fieldnames)"
    then have "find_suffix fieldnames (fieldnames ! jCol) 1 = k"
      by (intro find_suffix_first) (simp_all add: sprintf_s_d_def)
    with a show "rename_duplicate fieldnames jCol =
              (fieldnames[jCol := fieldnames ! jCol @ ''_'' @ sprintf_d k], [])"
      by (simp add: rename_duplicate_def sprintf_s_d_def)
  qed
  have none: "(\<forall>k. 1 \<le> k \<and> k < 100 \<longrightarrow> fieldnames ! jCol @ ''_'' @ sprintf_d k \<in> set fieldnames)
        \<longrightarrow> rename_duplicate fieldnames jCol = (fieldnames, [MSG_MSGUNIQUEWARN])"
  proof
    assume "\<forall>k. 1 \<le> k \<and> k < 100 \<longrightarrow> fieldnames ! jCol @ ''_'' @ sprintf_d k \<in> set fieldnames"
    then have "find_suffix fieldnames (fieldnames ! jCol) 1 = 100"
      by (intro find_suffix_none) (simp_all add: sprintf_s_d_def)
    then show "rename_duplicate fieldnames jCol = (fieldnames, [MSG_MSGUNIQUEWARN])"
      by (simp add: rename_duplicate_def)
  qed
  have three: "fieldnames_of_result cfg [''a'', ''a'', ''a''] = ([''a'', ''a_1'', ''a_2''], [])"
    by (simp only: fieldnames_of_result_def Let_def assms if_True three_a_result)
  have same: "distinct (get_column_names cnames) \<longrightarrow>
          fieldnames_of_result cfg cnames = (get_column_names cnames, [])"
    using assms
    by (simp add: fieldnames_of_result_def check_iCol_unchanged length_get_column_names)
  obtain f w where run: "check_iCol (length cnames) 0 (get_column_names cnames) [] = (f, w)"
    by (cases "check_iCol (length cnames) 0 (get_column_names cnames) []")
  have res: "fieldnames_of_result cfg cnames = (f, w)"
    using assms run by (simp add: fieldnames_of_result_def)
  have dist: "snd (fieldnames_of_result cfg cnames) = [] \<longrightarrow>
          distinct (fst (fieldnames_of_result cfg cnames))"
  proof
    assume "snd (fieldnames_of_result cfg cnames) = []"
    with res have "w = []" by simp
    with run have "length f = length cnames \<and> distinct f"
      by (intro check_iCol_distinct[where iCol=0 and warnings="[]"
            and fieldnames="get_column_names cnames"])
         (simp_all add: length_get_column_names)
    with res show "distinct (fst (fieldnames_of_result cfg cnames))" by simp
  qed
  have len: "length (fst (fieldnames_of_result cfg cnames)) = length cnames"
    using assms by (simp add: fieldnames_of_result_def check_iCol_length length_get_column_names)
  have tie: "fieldnames_of_result cfg cnames =
      check_iCol (length cnames) 0 (get_column_names cnames) []"
    using assms by (simp add: fieldnames_of_result_def)
  have outer1: "iCol + 1 < ncol \<longrightarrow>
          check_iCol ncol iCol fieldnames warnings =
            (case check_jCol ncol iCol (iCol + 1) fieldnames warnings of
               (fieldnames', warnings') \<Rightarrow> check_iCol ncol (iCol + 1) fieldnames' warnings')"
    by (simp add: check_iCol.simps[of ncol iCol fieldnames warnings])
  have outer2: "\<not> iCol + 1 < ncol \<longrightarrow>
          check_iCol ncol iCol fieldnames warnings = (fieldnames, warnings)"
    by (simp add: check_iCol_stop)
  have inner3: "\<not> jCol < ncol \<longrightarrow>
          check_jCol ncol iCol jCol fieldnames warnings = (fieldnames, warnings)"
    by (simp add: check_jCol_stop)
  have inv: "length f = length cnames
      \<and> (w \<noteq> [] \<longrightarrow>
          (\<exists>c < length f. \<forall>k. 1 \<le> k \<and> k < 100 \<longrightarrow> sprintf_s_d (f ! c) k \<in> set f))"
    using run by (rule check_iCol_exhausted) (simp_all add: length_get_column_names)
  then have lf: "length f = length cnames" by blast
  have exh: "snd (fieldnames_of_result cfg cnames) \<noteq> [] \<longrightarrow>
          (\<exists>c < length cnames. \<forall>k. 1 \<le> k \<and> k < 100 \<longrightarrow>
              fst (fieldnames_of_result cfg cnames) ! c @ ''_'' @ sprintf_d k
                \<in> set (fst (fieldnames_of_result cfg cnames)))"
    using inv unfolding res fst_conv snd_conv sprintf_s_d_def lf by blast
  have few: "length cnames < 100 \<longrightarrow>
          snd (fieldnames_of_result cfg cnames) = []
          \<and> distinct (fst (fieldnames_of_result cfg cnames))"
  proof
    assume less: "length cnames < 100"
    have "w = []"
    proof (rule ccontr)
      assume "w \<noteq> []"
      with inv obtain c where "c < length f"
        "\<forall>k. 1 \<le> k \<and> k < 100 \<longrightarrow> sprintf_s_d (f ! c) k \<in> set f"
        by blast
      then have "100 \<le> length f" by (rule exhausted_columns)
      with less lf show False by simp
    qed
    with res dist show "snd (fieldnames_of_result cfg cnames) = []
          \<and> distinct (fst (fieldnames_of_result cfg cnames))"
      by simp
  qed
  have three_b: "fieldnames_of_result cfg [''a'', ''b'', ''b''] = ([''a'', ''b'', ''b_1''], [])"
    by (simp only: fieldnames_of_result_def Let_def assms if_True three_b_result)
  from clean loop1 loop2 first none sprintf_d_digits[of d] three same dist len
    tie outer1 outer2 inner3 exh few three_b
  show ?thesis by blast
qed

theorem duplicate_fieldname_resolution_witness:
  "rename_duplicate [''a'', ''a'', ''a_1''] 1 = ([''a'', ''a_2'', ''a_1''], [])
   \<and> rename_duplicate (''a'' # ''a'' # map (\<lambda>k. ''a'' @ ''_'' @ sprintf_d k) [1..<100]) 1 =
       (''a'' # ''a'' # map (\<lambda>k. ''a'' @ ''_'' @ sprintf_d k) [1..<100], [MSG_MSGUNIQUEWARN])
   \<and> check_jCol 3 0 1 [''a'', ''b'', ''c''] [] = check_jCol 3 0 2 [''a'', ''b'', ''c''] []
   \<and> fieldnames_of_result initial_config [''a'', ''a'', ''a''] = ([''a'', ''a_1'', ''a_2''], [])
   \<and> fieldnames_of_result initial_config [''a b'', ''c*'', ''d''] = ([''a_b'', ''c_'', ''d''], [])
   \<and> sprintf_d 7 = ''7'' \<and> sprintf_d 42 = ''42''
   \<and> fieldnames_of_result initial_config [''a'', ''b'', ''b''] = ([''a'', ''b'', ''b_1''], [])
   \<and> fieldnames_of_result initial_config [''x'', ''y'', ''x'', ''y'', ''x_1''] =
       ([''x'', ''y'', ''x_2'', ''y_1'', ''x_1''], [])
   \<and> distinct (fst (fieldnames_of_result initial_config [''x'', ''y'', ''x'', ''y'', ''x_1'']))"
proof -
  have c: "check4uniquefields initial_config" by (simp add: initial_config_def)
  note t = duplicate_fieldname_resolution[OF c]
  let ?F = "[''a'', ''a'', ''a_1'']"
  have "\<forall>k'. 1 \<le> k' \<and> k' < (2::nat) \<longrightarrow> ?F ! 1 @ ''_'' @ sprintf_d k' \<in> set ?F"
  proof (intro allI impI)
    fix k' :: nat
    assume "1 \<le> k' \<and> k' < 2"
    then have "k' = 1" by simp
    then show "?F ! 1 @ ''_'' @ sprintf_d k' \<in> set ?F" by (simp add: digit_char_def)
  qed
  then have h1: "1 \<le> (2::nat) \<and> (2::nat) < 100 \<and> ?F ! 1 @ ''_'' @ sprintf_d 2 \<notin> set ?F
      \<and> (\<forall>k'. 1 \<le> k' \<and> k' < 2 \<longrightarrow> ?F ! 1 @ ''_'' @ sprintf_d k' \<in> set ?F)"
    by (simp add: digit_char_def)
  from t[where fieldnames = ?F and jCol = 1 and k = 2] h1
  have "rename_duplicate ?F 1 = (?F[1 := ?F ! 1 @ ''_'' @ sprintf_d 2], [])"
    by blast
  then have r1: "rename_duplicate ?F 1 = ([''a'', ''a_2'', ''a_1''], [])"
    by (simp add: digit_char_def)
  let ?G = "''a'' # ''a'' # map (\<lambda>k. ''a'' @ ''_'' @ sprintf_d k) [1..<100]"
  have h2: "\<forall>k. 1 \<le> k \<and> k < 100 \<longrightarrow> ?G ! 1 @ ''_'' @ sprintf_d k \<in> set ?G"
    by (auto simp del: sprintf_d.simps upt_rec_numeral)
  from t[where fieldnames = ?G and jCol = 1] h2
  have r2: "rename_duplicate ?G 1 = (?G, [MSG_MSGUNIQUEWARN])"
    by blast
  have h3: "(1::nat) < 3 \<and> [''a'', ''b'', ''c''] ! 0 \<noteq> [''a'', ''b'', ''c''] ! 1" by simp
  from t[where fieldnames = "[''a'', ''b'', ''c'']" and jCol = 1 and ncol = 3 and iCol = 0
      and warnings = "[]"] h3
  have "check_jCol 3 0 1 [''a'', ''b'', ''c''] [] = check_jCol 3 0 (1 + 1) [''a'', ''b'', ''c''] []"
    by blast
  moreover have "(1::nat) + 1 = 2" by simp
  ultimately have r3: "check_jCol 3 0 1 [''a'', ''b'', ''c''] [] = check_jCol 3 0 2 [''a'', ''b'', ''c''] []"
    by (simp only:)
  from t have r4: "fieldnames_of_result initial_config [''a'', ''a'', ''a''] =
      ([''a'', ''a_1'', ''a_2''], [])"
    by blast
  have h5: "distinct (get_column_names [''a b'', ''c*'', ''d''])"
    by (simp add: isalnum_def)
  from t[where cnames = "[''a b'', ''c*'', ''d'']"] h5
  have "fieldnames_of_result initial_config [''a b'', ''c*'', ''d''] =
      (get_column_names [''a b'', ''c*'', ''d''], [])"
    by blast
  then have r5: "fieldnames_of_result initial_config [''a b'', ''c*'', ''d''] =
      ([''a_b'', ''c_'', ''d''], [])"
    by (simp add: isalnum_def)
  from t[where d = 7] have r6: "sprintf_d 7 = ''7''" by simp
  have "(10::nat) \<le> 42 \<and> (42::nat) < 100" by simp
  with t[where d = 42] have r7: "sprintf_d 42 = ''42''" by simp
  from t have r8: "fieldnames_of_result initial_config [''a'', ''b'', ''b''] =
      ([''a'', ''b'', ''b_1''], [])"
    by blast
  have r9: "fieldnames_of_result initial_config [''x'', ''y'', ''x'', ''y'', ''x_1''] =
       ([''x'', ''y'', ''x_2'', ''y_1'', ''x_1''], [])"
    by code_simp
  have "length [''x'', ''y'', ''x'', ''y'', ''x_1''] < (100 :: nat)" by simp
  with t[where cnames = "[''x'', ''y'', ''x'', ''y'', ''x_1'']"]
  have r10: "distinct (fst (fieldnames_of_result initial_config [''x'', ''y'', ''x'', ''y'', ''x_1'']))"
    by blast
  from r1 r2 r3 r4 r5 r6 r7 r8 r9 r10 show ?thesis by blast
qed

text \<open>
  C9. With the uniqueness check switched off, as the command \<^verbatim>\<open>check4uniquefields\<close>
  leaves it for the argument 0, the names are only cleaned: the loops that rename are
  not entered, no warning is raised, and names that are equal stay equal.
\<close>

theorem uniqueness_check_disabled:
  "check4uniquefields (set_check4uniquefields cfg 0) = False
   \<and> fieldnames_of_result (set_check4uniquefields cfg 0) cnames =
       (map (map (\<lambda>c. if isalnum c then c else CHR ''_'')) cnames, [])
   \<and> fieldnames_of_result (cfg\<lparr>check4uniquefields := False\<rparr>) cnames =
       (map (map (\<lambda>c. if isalnum c then c else CHR ''_'')) cnames, [])
   \<and> fieldnames_of_result (set_check4uniquefields cfg 0) [''a'', ''a'', ''a b''] =
       ([''a'', ''a'', ''a_b''], [])"
  by (simp add: fieldnames_of_result_def set_check4uniquefields_def get_column_names_map
        isalnum_def)

theorem uniqueness_check_disabled_witness:
  "fieldnames_of_result (set_check4uniquefields initial_config 0) [''x y'', ''x*y'', ''x_y''] =
     ([''x_y'', ''x_y'', ''x_y''], [])
   \<and> fieldnames_of_result initial_config [''x y'', ''x*y'', ''x_y''] =
     ([''x_y'', ''x_y_1'', ''x_y_2''], [])"
proof -
  have "fieldnames_of_result initial_config [''x y'', ''x*y'', ''x_y''] =
     ([''x_y'', ''x_y_1'', ''x_y_2''], [])"
    by code_simp
  with uniqueness_check_disabled[of initial_config "[''x y'', ''x*y'', ''x_y'']"]
  show ?thesis by (simp add: isalnum_def)
qed

section \<open>Proofs: typed BLOBs\<close>

lemma length_int_bytes: "length (int_bytes n v) = n"
  by (induction n arbitrary: v) simp_all

lemma bytes_int_int_bytes: "bytes_int (int_bytes n v) = v mod 256 ^ n"
proof (induction n arbitrary: v)
  case 0
  then show ?case by simp
next
  case (Suc n)
  have "unat (of_nat v :: byte) = v mod 256" by (simp add: unat_of_nat)
  with Suc show ?case by (simp add: mod_mult2_eq)
qed

lemma length_put_int16: "length (put_int16 h v) = 2"
  by (simp add: put_int16_def length_int_bytes)

lemma length_put_int32: "length (put_int32 h v) = 4"
  by (simp add: put_int32_def length_int_bytes)

lemma get_put_int16: "get_int16 h (put_int16 h v) = v"
proof -
  have "unat v < 2 ^ LENGTH(16)" by (rule unsigned_less)
  then have "unat v mod 256 ^ 2 = unat v" by simp
  then show ?thesis by (simp add: get_int16_def put_int16_def bytes_int_int_bytes)
qed

lemma get_put_int32: "get_int32 h (put_int32 h v) = v"
proof -
  have "unat v < 2 ^ LENGTH(32)" by (rule unsigned_less)
  then have "unat v mod 256 ^ 4 = unat v" by simp
  then show ?thesis by (simp add: get_int32_def put_int32_def bytes_int_int_bytes)
qed

lemma strncmp_eq_take:
  "n \<le> length a \<Longrightarrow> n \<le> length b \<Longrightarrow> 0 \<notin> set (take n b) \<Longrightarrow>
   strncmp_eq a b n \<longleftrightarrow> take n a = take n b"
proof (induction n arbitrary: a b)
  case 0
  then show ?case by simp
next
  case (Suc n)
  then obtain x a' y b' where ab: "a = x # a'" "b = y # b'"
    by (cases a; cases b) simp_all
  with Suc.prems have "y \<noteq> 0" "n \<le> length a'" "n \<le> length b'" "0 \<notin> set (take n b')"
    by auto
  with Suc.IH[of a' b'] ab show ?case by auto
qed

lemma strncmp_eq_prefix: "strncmp_eq a b n \<longleftrightarrow> strncmp_eq (take n a) b n"
proof (induction a b n rule: strncmp_eq.induct)
  case (1 s1 s2)
  then show ?case by simp
next
  case (2 c1 s1 c2 s2 n)
  then show ?case by simp
next
  case (3 n)
  then show ?case by simp
next
  case (4 c2 s2 n)
  then show ?case by simp
next
  case (5 c1 s1 n)
  then show ?case by simp
qed

lemma strncpy_alt:
  "strncpy s n =
     take n (takeWhile (\<lambda>c. c \<noteq> 0) s) @ replicate (n - length (takeWhile (\<lambda>c. c \<noteq> 0) s)) 0"
  by (simp add: strncpy_def min_def)

lemma strncmp_eq_strncpy: "strncmp_eq s (strncpy s n @ rest) n"
proof (induction n arbitrary: s)
  case 0
  then show ?case by simp
next
  case (Suc n)
  show ?case
  proof (cases s)
    case Nil
    then show ?thesis by (simp add: strncpy_alt)
  next
    case (Cons c s')
    show ?thesis
    proof (cases "c = 0")
      case True
      with Cons show ?thesis by (simp add: strncpy_alt)
    next
      case False
      have "strncpy (c # s') (Suc n) = c # strncpy s' n"
        using False by (simp add: strncpy_alt)
      with Cons Suc.IH[of s'] show ?thesis by simp
    qed
  qed
qed

lemma length_strncpy: "length (strncpy s n) = n"
  by (simp add: strncpy_def)

lemma TBH_MAGIC_bytes:
  "TBH_MAGIC = [109, 107, 83, 81, 76, 105, 116, 101, 46, 116, 98, 104, 0]"
  by (simp add: TBH_MAGIC_def)

lemma strlen_TBH_MAGIC_12: "strlen_TBH_MAGIC = 12"
  by (simp add: strlen_TBH_MAGIC_def TBH_MAGIC_bytes)

lemma length_TBH_MAGIC: "length TBH_MAGIC = 13"
  by (simp add: TBH_MAGIC_bytes)

lemma magic_check:
  "12 \<le> length tbh \<Longrightarrow>
   strncmp_eq tbh TBH_MAGIC strlen_TBH_MAGIC \<longleftrightarrow> take 12 tbh = take 12 TBH_MAGIC"
  by (simp add: strlen_TBH_MAGIC_12 strncmp_eq_take TBH_MAGIC_bytes)

lemma mxClassID_roundtrip: "mxClassID_of_int32 (int32_of_mxClassID c) = Some c"
  by (cases c) (simp_all add: mxClassID_of_int32_def int32_of_mxClassID_def mxClassID_values_def)

lemma TBH_DATA_OFFSET_of_nat: "TBH_DATA_OFFSET (of_nat n) = of_nat (32 + 4 * (n + 1))"
  by (simp add: TBH_DATA_OFFSET_def)

lemma unat_of_nat32: "n < 2 ^ 32 \<Longrightarrow> unat (of_nat n :: 32 word) = n"
  by (simp add: unat_of_nat)

lemma sint_of_nat32: "n < 2 ^ 31 \<Longrightarrow> sint (of_nat n :: 32 word) = int n"
proof -
  assume a: "n < 2 ^ 31"
  have "sint (word_of_int (int n) :: 32 word) = int n"
    unfolding int_word_sint using a by simp
  then show ?thesis by simp
qed

lemma length_write_bytes:
  "off + length bs \<le> length mem \<Longrightarrow> length (write_bytes mem off bs) = length mem"
  by (simp add: write_bytes_def)

lemma nth_write_bytes:
  "off + length bs \<le> length mem \<Longrightarrow> i < length mem \<Longrightarrow>
   write_bytes mem off bs ! i = (if off \<le> i \<and> i < off + length bs then bs ! (i - off) else mem ! i)"
  by (auto simp: write_bytes_def nth_append)

lemma store_Inr:
  "off + length bs \<le> length mem \<Longrightarrow> store (Inr mem) off bs = Inr (write_bytes mem off bs)"
  by (simp add: store_def)

lemma write_bytes_append:
  "off + length a + length b \<le> length mem \<Longrightarrow>
   write_bytes (write_bytes mem off a) (off + length a) b = write_bytes mem off (a @ b)"
  by (simp add: write_bytes_def ac_simps)

lemma store_dims_Inr:
  "32 + 4 * (j + 1) + 4 * length dims \<le> length mem \<Longrightarrow>
   store_dims h (Inr mem) j dims =
     Inr (write_bytes mem (32 + 4 * (j + 1)) (concat (map (\<lambda>d. put_int32 h (of_nat d)) dims)))"
proof (induction dims arbitrary: mem j)
  case Nil
  then show ?case by (simp add: write_bytes_def)
next
  case (Cons d dims)
  let ?w = "put_int32 h (of_nat d)"
  let ?rest = "concat (map (\<lambda>d. put_int32 h (of_nat d)) dims)"
  have len: "length ?rest = 4 * length dims"
    by (induction dims) (simp_all add: length_put_int32)
  from Cons.prems have b1: "32 + 4 * (j + 1) + length ?w \<le> length mem"
    by (simp add: length_put_int32)
  from Cons.prems have b2:
    "32 + 4 * (Suc j + 1) + 4 * length dims \<le> length (write_bytes mem (32 + 4 * (j + 1)) ?w)"
    by (simp add: length_write_bytes length_put_int32)
  have "write_bytes (write_bytes mem (32 + 4 * (j + 1)) ?w) (32 + 4 * (j + 1) + length ?w) ?rest
      = write_bytes mem (32 + 4 * (j + 1)) (?w @ ?rest)"
    using Cons.prems by (intro write_bytes_append) (simp add: len length_put_int32)
  then have "write_bytes (write_bytes mem (32 + 4 * (j + 1)) ?w) (32 + 4 * (Suc j + 1)) ?rest
      = write_bytes mem (32 + 4 * (j + 1)) (?w @ ?rest)"
    by (simp add: length_put_int32)
  with Cons.IH[OF b2] b1 show ?case
    by (simp add: store_Inr)
qed

lemma length_concat_dims:
  "length (concat (map (\<lambda>d. put_int32 h (of_nat d)) dims)) = 4 * length dims"
  by (induction dims) (simp_all add: length_put_int32)

lemma get_dims_concat:
  "get_dims h (concat (map (\<lambda>d. put_int32 h (of_nat d)) dims) @ rest) (length dims) =
     map of_nat dims"
  by (induction dims) (simp_all add: length_put_int32 get_put_int32)

lemma unat_MAX_BLOB: "unat MQSQLITE_MAX_BLOB_SIZE = 1073741823"
  by (simp add: MQSQLITE_MAX_BLOB_SIZE_def)

lemma sint_MAX_BLOB: "sint MQSQLITE_MAX_BLOB_SIZE = 1073741823"
  by (simp add: MQSQLITE_MAX_BLOB_SIZE_def)

lemma too_big_iff:
  "S < 2 ^ 31 \<Longrightarrow>
   sint (of_nat S :: 32 word) > sint MQSQLITE_MAX_BLOB_SIZE \<longleftrightarrow> S > 1073741823"
  by (simp add: sint_MAX_BLOB sint_of_nat32)

text \<open>
  The block the writer leaves: every member of the header where the reader looks for
  it, the sizes behind the header and the data behind the sizes. Bytes 13 and 30 are
  never written.
\<close>

lemma encode_layout:
  assumes cls: "typed_blob_class (mxGetClassID item)"
    and len: "length (mxGetData item) =
        mxGetNumberOfElements item * mxGetElementSize h (mxGetClassID item)"
    and fit: "32 + 4 * (length (mxGetDimensions item) + 1) + length (mxGetData item)
        \<le> unat MQSQLITE_MAX_BLOB_SIZE"
    and alloc: "sqlite3_malloc h
        (32 + 4 * (length (mxGetDimensions item) + 1) + length (mxGetData item))"
  shows "\<exists>blob. encode_typed_blob h item = Inr blob
      \<and> length blob = 32 + 4 * (length (mxGetDimensions item) + 1) + length (mxGetData item)
      \<and> take 13 blob = TBH_MAGIC
      \<and> take 2 (drop 14 blob) = put_int16 h (of_nat sizeof_typed_BLOB_header)
      \<and> take 4 (drop 16 blob) = put_int32 h (int32_of_mxClassID (mxGetClassID item))
      \<and> take 10 (drop 20 blob) = strncpy (g_platform h) 10
      \<and> blob ! 31 = g_endian h
      \<and> take 4 (drop 32 blob) = put_int32 h (of_nat (length (mxGetDimensions item)))
      \<and> take (4 * length (mxGetDimensions item)) (drop 36 blob) =
          concat (map (\<lambda>d. put_int32 h (of_nat d)) (mxGetDimensions item))
      \<and> drop (32 + 4 * (length (mxGetDimensions item) + 1)) blob = mxGetData item"
proof -
  define n where "n = length (mxGetDimensions item)"
  define N where "N = length (mxGetData item)"
  define S where "S = 32 + 4 * (n + 1) + N"
  define dimbytes where "dimbytes = concat (map (\<lambda>d. put_int32 h (of_nat d)) (mxGetDimensions item))"
  have ld: "length dimbytes = 4 * n"
    by (simp add: dimbytes_def n_def length_concat_dims)
  from fit have S: "S \<le> 1073741823" by (simp add: S_def n_def N_def unat_MAX_BLOB)
  then have S32: "S < 2 ^ 31" by simp
  have sb: "TBH_DATA_OFFSET (of_nat n) +
      of_nat (mxGetNumberOfElements item * mxGetElementSize h (mxGetClassID item))
      = (of_nat S :: 32 word)"
    using len by (simp add: TBH_DATA_OFFSET_def S_def N_def)
  have sS: "sint (of_nat S :: 32 word) = int S" using S32 by (rule sint_of_nat32)
  have uS: "nat (int S) = S" by simp
  have notbig: "\<not> int S > sint MQSQLITE_MAX_BLOB_SIZE"
    using S by (simp add: sint_MAX_BLOB)
  have pos: "\<not> int S \<le> 0" by (simp add: S_def)
  define b0 where "b0 = map (uninitialised h) [0..<S]"
  define b1 where "b1 = write_bytes b0 14 (put_int16 h (of_nat sizeof_typed_BLOB_header))"
  define b2 where "b2 = write_bytes b1 16 (put_int32 h (int32_of_mxClassID (mxGetClassID item)))"
  define b3 where "b3 = write_bytes b2 31 [g_endian h]"
  define b4 where "b4 = write_bytes b3 32 (put_int32 h (of_nat n))"
  define b5 where "b5 = write_bytes b4 0 TBH_MAGIC"
  define b6 where "b6 = write_bytes b5 20 (strncpy (g_platform h) 10)"
  define b7 where "b7 = write_bytes b6 (32 + 4 * (0 + 1)) dimbytes"
  define B where "B = write_bytes b7 (32 + 4 * (n + 1)) (mxGetData item)"
  have S36: "36 + 4 * n + N = S" by (simp add: S_def)
  have l0: "length b0 = S" by (simp add: b0_def)
  have l1: "length b1 = S" using S36 by (simp add: b1_def length_write_bytes l0 length_put_int16)
  have l2: "length b2 = S" using S36 by (simp add: b2_def length_write_bytes l1 length_put_int32)
  have l3: "length b3 = S" using S36 by (simp add: b3_def length_write_bytes l2)
  have l4: "length b4 = S" using S36 by (simp add: b4_def length_write_bytes l3 length_put_int32)
  have l5: "length b5 = S" using S36 by (simp add: b5_def length_write_bytes l4 length_TBH_MAGIC)
  have l6: "length b6 = S" using S36 by (simp add: b6_def length_write_bytes l5 length_strncpy)
  have l7: "length b7 = S" using S36 by (simp add: b7_def length_write_bytes l6 ld)
  have lB: "length B = S" using S36 by (simp add: B_def length_write_bytes l7 N_def)
  have s1: "store (Inr b0) 14 (put_int16 h (of_nat sizeof_typed_BLOB_header)) = Inr b1"
    using S36 by (simp add: store_Inr b1_def l0 length_put_int16)
  have s2: "store (Inr b1) 16 (put_int32 h (int32_of_mxClassID (mxGetClassID item))) = Inr b2"
    using S36 by (simp add: store_Inr b2_def l1 length_put_int32)
  have s3: "store (Inr b2) 31 [g_endian h] = Inr b3"
    using S36 by (simp add: store_Inr b3_def l2)
  have s4: "store (Inr b3) 32 (put_int32 h (of_nat n)) = Inr b4"
    using S36 by (simp add: store_Inr b4_def l3 length_put_int32)
  have s5: "store (Inr b4) 0 TBH_MAGIC = Inr b5"
    using S36 by (simp add: store_Inr b5_def l4 length_TBH_MAGIC)
  have s6: "store (Inr b5) 20 (strncpy (g_platform h) 10) = Inr b6"
    using S36 by (simp add: store_Inr b6_def l5 length_strncpy)
  have s7: "store_dims h (Inr b6) 0 (mxGetDimensions item) = Inr b7"
    unfolding b7_def dimbytes_def
    using S36 by (intro store_dims_Inr) (simp add: l6 n_def)
  have s8: "store (Inr b7) (32 + 4 * (n + 1)) (mxGetData item) = Inr B"
    using S36 by (simp add: store_Inr B_def l7 N_def)
  have ld0: "load (mxGetData item) 0
       (mxGetNumberOfElements item * mxGetElementSize h (mxGetClassID item)) = Inr (mxGetData item)"
    using len by (simp add: load_def)
  have enc: "encode_typed_blob h item = Inr B"
    unfolding encode_typed_blob_def Let_def
    using cls alloc notbig pos
    by (simp only: sb sS uS n_def[symmetric] b0_def[symmetric] s1 s2 s3 s4 s5 s6 s7 s8 ld0
          S_def[symmetric] N_def[symmetric] if_False if_True not_not sum.case)
       simp
  have n1: "b1 ! i = (if 14 \<le> i \<and> i < 16 then put_int16 h (of_nat sizeof_typed_BLOB_header) ! (i - 14)
      else b0 ! i)" if "i < S" for i
    using that S36 by (simp add: b1_def nth_write_bytes l0 length_put_int16)
  have n2: "b2 ! i = (if 16 \<le> i \<and> i < 20
      then put_int32 h (int32_of_mxClassID (mxGetClassID item)) ! (i - 16) else b1 ! i)"
    if "i < S" for i
    using that S36 by (simp add: b2_def nth_write_bytes l1 length_put_int32)
  have n3: "b3 ! i = (if i = 31 then g_endian h else b2 ! i)" if "i < S" for i
    using that S36 by (auto simp: b3_def nth_write_bytes l2)
  have n4: "b4 ! i = (if 32 \<le> i \<and> i < 36 then put_int32 h (of_nat n) ! (i - 32) else b3 ! i)"
    if "i < S" for i
    using that S36 by (simp add: b4_def nth_write_bytes l3 length_put_int32)
  have n5: "b5 ! i = (if i < 13 then TBH_MAGIC ! i else b4 ! i)" if "i < S" for i
    using that S36 by (simp add: b5_def nth_write_bytes l4 length_TBH_MAGIC)
  have n6: "b6 ! i = (if 20 \<le> i \<and> i < 30 then strncpy (g_platform h) 10 ! (i - 20) else b5 ! i)"
    if "i < S" for i
    using that S36 by (simp add: b6_def nth_write_bytes l5 length_strncpy)
  have n7: "b7 ! i = (if 36 \<le> i \<and> i < 36 + 4 * n then dimbytes ! (i - 36) else b6 ! i)"
    if "i < S" for i
    using that S36 by (simp add: b7_def nth_write_bytes l6 ld)
  have n8: "B ! i = (if 36 + 4 * n \<le> i then mxGetData item ! (i - (36 + 4 * n)) else b7 ! i)"
    if "i < S" for i
    using that S36 by (auto simp: B_def nth_write_bytes l7 N_def)
  have p_magic: "take 13 B = TBH_MAGIC"
    using S36 by (intro nth_equalityI) (simp_all add: lB length_TBH_MAGIC n8 n7 n6 n5)
  have p_ver: "take 2 (drop 14 B) = put_int16 h (of_nat sizeof_typed_BLOB_header)"
    using S36 by (intro nth_equalityI) (simp_all add: lB length_put_int16 n8 n7 n6 n5 n4 n3 n2 n1)
  have p_cls: "take 4 (drop 16 B) = put_int32 h (int32_of_mxClassID (mxGetClassID item))"
    using S36 by (intro nth_equalityI) (simp_all add: lB length_put_int32 n8 n7 n6 n5 n4 n3 n2)
  have p_plat: "take 10 (drop 20 B) = strncpy (g_platform h) 10"
    using S36 by (intro nth_equalityI) (simp_all add: lB length_strncpy n8 n7 n6)
  have p_end: "B ! 31 = g_endian h"
    using S36 by (simp add: n8 n7 n6 n5 n4 n3)
  have p_nd: "take 4 (drop 32 B) = put_int32 h (of_nat n)"
    using S36 by (intro nth_equalityI) (simp_all add: lB length_put_int32 n8 n7 n6 n5 n4)
  have p_dims: "take (4 * n) (drop 36 B) = dimbytes"
    using S36 by (intro nth_equalityI) (simp_all add: lB ld n8 n7)
  have p_data: "drop (32 + 4 * (n + 1)) B = mxGetData item"
    using S36 by (intro nth_equalityI) (simp_all add: lB N_def[symmetric] n8)
  from enc lB p_magic p_ver p_cls p_plat p_end p_nd p_dims p_data show ?thesis
    unfolding S_def n_def N_def dimbytes_def by blast
qed

lemma load_Inr: "off + n \<le> length mem \<Longrightarrow> load mem off n = Inr (take n (drop off mem))"
  by (simp add: load_def)

lemma map_unat_of_nat32:
  "\<forall>d\<in>set dims. d < 2 ^ 32 \<Longrightarrow> map unat (map of_nat dims :: 32 word list) = dims"
  by (induction dims) (simp_all add: unat_of_nat32)

text \<open>The reader on a block with that layout, on the host that wrote it.\<close>

lemma decode_layout:
  assumes lenB: "length blob = 32 + 4 * (length dims + 1) + N"
    and bound: "length blob < 2 ^ 31"
    and magic: "take 13 blob = TBH_MAGIC"
    and ver: "take 2 (drop 14 blob) = put_int16 h (of_nat sizeof_typed_BLOB_header)"
    and cls: "take 4 (drop 16 blob) = put_int32 h (int32_of_mxClassID c)"
    and plat: "take 10 (drop 20 blob) = strncpy (g_platform h) 10"
    and endian: "blob ! 31 = g_endian h"
    and nd: "take 4 (drop 32 blob) = put_int32 h (of_nat (length dims))"
    and ds: "take (4 * length dims) (drop 36 blob) = concat (map (\<lambda>d. put_int32 h (of_nat d)) dims)"
    and supported: "typed_blob_class c"
    and host: "mxCreateNumericArray h (of_nat (length dims)) (map of_nat dims) c = Some numel"
  shows "decode_typed_blob h blob =
    (if N \<noteq> numel * mxGetElementSize h c then Inl MSG_INVALIDARG
     else Inr ([], c, map unat (map of_nat dims :: 32 word list),
               drop (32 + 4 * (length dims + 1)) blob))"
proof -
  define n where "n = length dims"
  have n32: "n < 2 ^ 32" "4 * n < 2 ^ 32" "32 + 4 * (n + 1) < 2 ^ 32" "N < 2 ^ 32"
    using lenB bound by (simp_all add: n_def)
  have "N < 2 ^ 31" using lenB bound by simp
  then have sN: "sint (of_nat N :: 32 word) = int N" by (rule sint_of_nat32)
  have l1: "load blob 14 2 = Inr (put_int16 h (of_nat sizeof_typed_BLOB_header))"
    using lenB ver by (simp add: load_Inr)
  have l2: "load blob 0 sizeof_typed_BLOB_header = Inr (take 36 blob)"
    using lenB by (simp add: load_Inr sizeof_typed_BLOB_header_def)
  have t_cls: "take 4 (drop 16 (take 36 blob)) = put_int32 h (int32_of_mxClassID c)"
    using cls by (simp add: drop_take length_put_int32)
  have t_nd: "take 4 (drop 32 (take 36 blob)) = put_int32 h (of_nat n)"
    using nd by (simp add: drop_take n_def length_put_int32)
  have t_end: "take 36 blob ! 31 = g_endian h"
    using endian by simp
  have "take 11 (drop 20 blob) = take 10 (drop 20 blob) @ [drop 20 blob ! 10]"
    using lenB by (simp add: take_Suc_conv_app_nth[of 10, simplified])
  then have t_plat: "take 11 (drop 20 (take 36 blob)) = strncpy (g_platform h) 10 @ [drop 20 blob ! 10]"
    using plat by (simp add: drop_take length_strncpy)
  have c_plat: "strncmp_eq (g_platform h) (take 11 (drop 20 (take 36 blob))) 10"
    unfolding t_plat by (rule strncmp_eq_strncpy)
  have "take 12 (take 36 blob) = take 12 (take 13 blob)" by simp
  then have c_magic: "strncmp_eq (take 36 blob) TBH_MAGIC strlen_TBH_MAGIC"
    using lenB magic by (simp add: magic_check del: take_take)
  have un: "unat (of_nat n :: 32 word) = n" using n32(1) by (rule unat_of_nat32)
  have l3: "load blob 36 (4 * n) = Inr (concat (map (\<lambda>d. put_int32 h (of_nat d)) dims))"
    using lenB ds by (simp add: load_Inr n_def)
  have gd: "get_dims h (concat (map (\<lambda>d. put_int32 h (of_nat d)) dims)) n = map of_nat dims"
    using get_dims_concat[of h dims "[]"] by (simp add: n_def)
  have sz: "(of_nat (length blob) :: 32 word) - TBH_DATA_OFFSET (of_nat n) = of_nat N"
    using lenB by (simp add: TBH_DATA_OFFSET_def n_def)
  have uoff: "unat (TBH_DATA_OFFSET (of_nat n)) = 32 + 4 * (n + 1)"
    using n32(3) by (simp add: TBH_DATA_OFFSET_of_nat unat_of_nat32 del: of_nat_add of_nat_mult)
  have uN: "unat (of_nat N :: 32 word) = N" using n32(4) by (rule unat_of_nat32)
  have l4: "load blob (32 + 4 * (n + 1)) N = Inr (drop (32 + 4 * (n + 1)) blob)"
    using lenB by (simp add: load_Inr n_def)
  show ?thesis
    unfolding decode_typed_blob_def Let_def
    by (simp only: l1 l2 sum.case get_put_int16 t_cls t_nd t_end c_plat c_magic get_put_int32
          mxClassID_roundtrip option.case supported un l3 gd host[folded n_def] sz sN uoff uN l4
          n_def[symmetric] of_nat_eq_iff)
       simp
qed

text \<open>
  C1. Typed-BLOB round trip. For an item of a class the writer accepts, with as many data
  bytes as its element count times the element size, whose block fits below the
  maximum and is allocated, the writer produces a block, and the reader on that block
  returns the class, the dimensions and the data bytes of the item, with no warning;
  the data bytes stand in the block as they are, behind the last dimension. The
  dimensions are taken below \<open>2^32\<close>, so that the four bytes of a size hold each, and the
  host's \<^verbatim>\<open>mxCreateNumericArray\<close> is taken to make an array of as many elements as the
  item has.
\<close>

theorem typed_blob_round_trip:
  assumes "typed_blob_class (mxGetClassID item)"
    and "length (mxGetData item) =
        mxGetNumberOfElements item * mxGetElementSize h (mxGetClassID item)"
    and "32 + 4 * (length (mxGetDimensions item) + 1) + length (mxGetData item)
        \<le> unat MQSQLITE_MAX_BLOB_SIZE"
    and "\<forall>d\<in>set (mxGetDimensions item). d < 2 ^ 32"
    and "sqlite3_malloc h
        (32 + 4 * (length (mxGetDimensions item) + 1) + length (mxGetData item))"
    and "mxCreateNumericArray h (of_nat (length (mxGetDimensions item)))
        (map of_nat (mxGetDimensions item)) (mxGetClassID item)
        = Some (mxGetNumberOfElements item)"
  shows "\<exists>blob. encode_typed_blob h item = Inr blob
      \<and> decode_typed_blob h blob =
          Inr ([], mxGetClassID item, mxGetDimensions item, mxGetData item)
      \<and> drop (32 + 4 * (length (mxGetDimensions item) + 1)) blob = mxGetData item"
proof -
  from encode_layout[OF assms(1,2,3,5)] obtain blob where
    enc: "encode_typed_blob h item = Inr blob"
    and lenB: "length blob =
        32 + 4 * (length (mxGetDimensions item) + 1) + length (mxGetData item)"
    and magic: "take 13 blob = TBH_MAGIC"
    and ver: "take 2 (drop 14 blob) = put_int16 h (of_nat sizeof_typed_BLOB_header)"
    and cls: "take 4 (drop 16 blob) = put_int32 h (int32_of_mxClassID (mxGetClassID item))"
    and plat: "take 10 (drop 20 blob) = strncpy (g_platform h) 10"
    and endian: "blob ! 31 = g_endian h"
    and nd: "take 4 (drop 32 blob) = put_int32 h (of_nat (length (mxGetDimensions item)))"
    and ds: "take (4 * length (mxGetDimensions item)) (drop 36 blob) =
          concat (map (\<lambda>d. put_int32 h (of_nat d)) (mxGetDimensions item))"
    and data: "drop (32 + 4 * (length (mxGetDimensions item) + 1)) blob = mxGetData item"
    by blast
  from lenB assms(3) have bound: "length blob < 2 ^ 31"
    by (simp add: unat_MAX_BLOB)
  from decode_layout[OF lenB bound magic ver cls plat endian nd ds assms(1) assms(6)]
  have "decode_typed_blob h blob =
      Inr ([], mxGetClassID item,
           map unat (map of_nat (mxGetDimensions item) :: 32 word list),
           drop (32 + 4 * (length (mxGetDimensions item) + 1)) blob)"
    using assms(2) by simp
  with data map_unat_of_nat32[OF assms(4)]
  have "decode_typed_blob h blob =
      Inr ([], mxGetClassID item, mxGetDimensions item, mxGetData item)"
    by simp
  with enc data show ?thesis by blast
qed

theorem typed_blob_round_trip_witness:
  "encode_typed_blob pcwin (MxArray mxUINT8_CLASS [2, 2] False [1, 2, 3, 4] None []) =
     Inr [109, 107, 83, 81, 76, 105, 116, 101, 46, 116, 98, 104, 0, 205, 36, 0,
          9, 0, 0, 0, 80, 67, 87, 73, 78, 0, 0, 0, 0, 0, 205, 76,
          2, 0, 0, 0, 2, 0, 0, 0, 2, 0, 0, 0, 1, 2, 3, 4]
   \<and> decode_typed_blob pcwin
       [109, 107, 83, 81, 76, 105, 116, 101, 46, 116, 98, 104, 0, 205, 36, 0,
        9, 0, 0, 0, 80, 67, 87, 73, 78, 0, 0, 0, 0, 0, 205, 76,
        2, 0, 0, 0, 2, 0, 0, 0, 2, 0, 0, 0, 1, 2, 3, 4] =
     Inr ([], mxUINT8_CLASS, [2, 2], [1, 2, 3, 4])"
proof -
  let ?item = "MxArray mxUINT8_CLASS [2, 2] False [1, 2, 3, 4] None []"
  have e: "encode_typed_blob pcwin ?item =
     Inr [109, 107, 83, 81, 76, 105, 116, 101, 46, 116, 98, 104, 0, 205, 36, 0,
          9, 0, 0, 0, 80, 67, 87, 73, 78, 0, 0, 0, 0, 0, 205, 76,
          2, 0, 0, 0, 2, 0, 0, 0, 2, 0, 0, 0, 1, 2, 3, 4]"
    by code_simp
  have "\<exists>blob. encode_typed_blob pcwin ?item = Inr blob
      \<and> decode_typed_blob pcwin blob =
          Inr ([], mxGetClassID ?item, mxGetDimensions ?item, mxGetData ?item)
      \<and> drop (32 + 4 * (length (mxGetDimensions ?item) + 1)) blob = mxGetData ?item"
    by (rule typed_blob_round_trip)
       (simp_all add: pcwin_def mxGetNumberOfElements_def unat_MAX_BLOB)
  with e show ?thesis by auto
qed

text \<open>The reader, with the reads written as parts of the block.\<close>

lemma decode_unfold:
  "decode_typed_blob h blob =
    (if length blob < 16 then Inl OUT_OF_BOUNDS
     else if get_int16 h (take 2 (drop 14 blob)) \<noteq> 36 then Inl MSG_UNSUPPTBH
     else if length blob < 36 then Inl OUT_OF_BOUNDS
     else if take 12 blob \<noteq> take 12 TBH_MAGIC then Inl MSG_UNSUPPTBH
     else
       (case mxClassID_of_int32 (get_int32 h (take 4 (drop 16 blob))) of
          None \<Rightarrow> Inl MSG_UNSUPPVARTYPE
        | Some c \<Rightarrow>
            if \<not> typed_blob_class c then Inl MSG_UNSUPPVARTYPE
            else if length blob < 36 + 4 * unat (get_int32 h (take 4 (drop 32 blob)))
            then Inl OUT_OF_BOUNDS
            else
              (case mxCreateNumericArray h (get_int32 h (take 4 (drop 32 blob)))
                      (get_dims h (take (4 * unat (get_int32 h (take 4 (drop 32 blob))))
                                     (drop 36 blob))
                         (unat (get_int32 h (take 4 (drop 32 blob))))) c of
                 None \<Rightarrow> Inl MSG_MEMERROR
               | Some numel \<Rightarrow>
                   if sint (of_nat (length blob)
                            - TBH_DATA_OFFSET (get_int32 h (take 4 (drop 32 blob))) :: 32 word)
                        \<noteq> int (numel * mxGetElementSize h c)
                   then Inl MSG_INVALIDARG
                   else if length blob <
                       unat (TBH_DATA_OFFSET (get_int32 h (take 4 (drop 32 blob)))) +
                       unat (of_nat (length blob)
                             - TBH_DATA_OFFSET (get_int32 h (take 4 (drop 32 blob))) :: 32 word)
                   then Inl OUT_OF_BOUNDS
                   else
                     Inr (if g_endian h \<noteq> blob ! 31
                             \<or> \<not> strncmp_eq (g_platform h) (take 11 (drop 20 blob)) 10
                          then [MSG_WARNDIFFARCH] else [],
                          c,
                          map unat
                            (get_dims h (take (4 * unat (get_int32 h (take 4 (drop 32 blob))))
                                           (drop 36 blob))
                               (unat (get_int32 h (take 4 (drop 32 blob))))),
                          take (unat (of_nat (length blob)
                                  - TBH_DATA_OFFSET (get_int32 h (take 4 (drop 32 blob)))
                                  :: 32 word))
                            (drop (unat (TBH_DATA_OFFSET (get_int32 h (take 4 (drop 32 blob)))))
                               blob)))))"
proof -
  have m: "strncmp_eq (take 36 blob) TBH_MAGIC strlen_TBH_MAGIC \<longleftrightarrow>
      take 12 blob = take 12 TBH_MAGIC" if "36 \<le> length blob"
    using that magic_check[of "take 36 blob"] by simp
  show ?thesis
    unfolding decode_typed_blob_def Let_def load_def sizeof_typed_BLOB_header_def
    by (auto simp: m drop_take not_less not_le split: option.splits)
qed

lemma data_offset_nat:
  "36 + 4 * unat nd < 2 ^ 32 \<Longrightarrow> unat (TBH_DATA_OFFSET nd) = 36 + 4 * unat nd"
proof -
  assume a: "36 + 4 * unat nd < 2 ^ 32"
  have "TBH_DATA_OFFSET nd = of_nat (36 + 4 * unat nd)"
    by (simp add: TBH_DATA_OFFSET_def)
  moreover have "unat (of_nat (36 + 4 * unat nd) :: 32 word) = 36 + 4 * unat nd"
    using a by (rule unat_of_nat32)
  ultimately show ?thesis by (simp only:)
qed

text \<open>
  C10. The magic is compared over its twelve characters only: the thirteenth byte of
  the block, where the writer puts the terminator of the magic, is never looked at.
  Whatever stands there, the reader does what it does on the unchanged block; a block
  that is read with success is read with the same success and the same value.
\<close>

theorem magic_terminator_not_checked:
  assumes "length blob < 2 ^ 31"
  shows "decode_typed_blob h (blob[12 := v]) = decode_typed_blob h blob
       \<and> strlen_TBH_MAGIC = 12 \<and> length TBH_MAGIC = 13 \<and> TBH_MAGIC ! 12 = 0"
proof -
  let ?b = "blob[12 := v]"
  define nd where "nd = get_int32 h (take 4 (drop 32 blob))"
  have same: "length ?b = length blob" "take 12 ?b = take 12 blob" "drop 14 ?b = drop 14 blob"
    "drop 16 ?b = drop 16 blob" "drop 20 ?b = drop 20 blob" "drop 32 ?b = drop 32 blob"
    "drop 36 ?b = drop 36 blob" "?b ! 31 = blob ! 31"
    by (simp_all add: drop_update_cancel)
  have eq: "decode_typed_blob h ?b = decode_typed_blob h blob"
  proof (cases "36 + 4 * unat nd \<le> length blob")
    case True
    with assms have "unat (TBH_DATA_OFFSET nd) = 36 + 4 * unat nd"
      by (intro data_offset_nat) simp
    then have "drop (unat (TBH_DATA_OFFSET nd)) ?b = drop (unat (TBH_DATA_OFFSET nd)) blob"
      by (simp add: drop_update_cancel)
    then show ?thesis
      by (simp add: decode_unfold[of h ?b] decode_unfold[of h blob] same nd_def[symmetric]
            cong: if_cong option.case_cong)
  next
    case False
    then have "length blob < 36 + 4 * unat nd" by simp
    then show ?thesis
      by (simp add: decode_unfold[of h ?b] decode_unfold[of h blob] same nd_def[symmetric]
            cong: if_cong option.case_cong)
  qed
  then show ?thesis
    by (simp add: strlen_TBH_MAGIC_12 TBH_MAGIC_bytes)
qed

theorem magic_terminator_not_checked_witness:
  "decode_typed_blob pcwin
       [109, 107, 83, 81, 76, 105, 116, 101, 46, 116, 98, 104, 255, 205, 36, 0,
        9, 0, 0, 0, 80, 67, 87, 73, 78, 0, 0, 0, 0, 0, 205, 76,
        2, 0, 0, 0, 2, 0, 0, 0, 2, 0, 0, 0, 1, 2, 3, 4] =
     Inr ([], mxUINT8_CLASS, [2, 2], [1, 2, 3, 4])
   \<and> encode_typed_blob pcwin (MxArray mxUINT8_CLASS [2, 2] False [1, 2, 3, 4] None []) =
     Inr [109, 107, 83, 81, 76, 105, 116, 101, 46, 116, 98, 104, 0, 205, 36, 0,
          9, 0, 0, 0, 80, 67, 87, 73, 78, 0, 0, 0, 0, 0, 205, 76,
          2, 0, 0, 0, 2, 0, 0, 0, 2, 0, 0, 0, 1, 2, 3, 4]"
proof -
  let ?blob = "[109, 107, 83, 81, 76, 105, 116, 101, 46, 116, 98, 104, 0, 205, 36, 0,
          9, 0, 0, 0, 80, 67, 87, 73, 78, 0, 0, 0, 0, 0, 205, 76,
          2, 0, 0, 0, 2, 0, 0, 0, 2, 0, 0, 0, 1, 2, 3, 4] :: byte list"
  have d: "decode_typed_blob pcwin ?blob = Inr ([], mxUINT8_CLASS, [2, 2], [1, 2, 3, 4])"
    by code_simp
  have e: "encode_typed_blob pcwin (MxArray mxUINT8_CLASS [2, 2] False [1, 2, 3, 4] None []) =
     Inr ?blob"
    by code_simp
  have "length ?blob < 2 ^ 31" by simp
  from magic_terminator_not_checked[OF this, of pcwin 255] d e
  show ?thesis by simp
qed

lemma size_field_nat:
  "36 + 4 * unat nd \<le> L \<Longrightarrow> L < 2 ^ 31 \<Longrightarrow>
   (of_nat L :: 32 word) - TBH_DATA_OFFSET nd = of_nat (L - (36 + 4 * unat nd))"
proof -
  assume a: "36 + 4 * unat nd \<le> L" "L < 2 ^ 31"
  have "TBH_DATA_OFFSET nd = of_nat (36 + 4 * unat nd)"
    by (simp add: TBH_DATA_OFFSET_def)
  moreover have "(of_nat L :: 32 word) - of_nat (36 + 4 * unat nd) = of_nat (L - (36 + 4 * unat nd))"
    using a(1) by (simp only: of_nat_diff)
  ultimately show ?thesis by (simp only:)
qed

lemma size_field_sint:
  "36 + 4 * unat nd \<le> L \<Longrightarrow> L < 2 ^ 31 \<Longrightarrow>
   sint ((of_nat L :: 32 word) - TBH_DATA_OFFSET nd) = int (L - (36 + 4 * unat nd))"
proof -
  assume a: "36 + 4 * unat nd \<le> L" "L < 2 ^ 31"
  have "L - (36 + 4 * unat nd) < 2 ^ 31" using a(2) by simp
  then have "sint (of_nat (L - (36 + 4 * unat nd)) :: 32 word) = int (L - (36 + 4 * unat nd))"
    by (rule sint_of_nat32)
  then show ?thesis by (simp only: size_field_nat[OF a])
qed

lemma decode_version_error:
  "16 \<le> length blob \<Longrightarrow> get_int16 h (take 2 (drop 14 blob)) \<noteq> 36 \<Longrightarrow>
   decode_typed_blob h blob = Inl MSG_UNSUPPTBH"
  by (simp add: decode_unfold)

lemma decode_magic_error:
  "36 \<le> length blob \<Longrightarrow> take 12 blob \<noteq> take 12 TBH_MAGIC \<Longrightarrow>
   decode_typed_blob h blob = Inl MSG_UNSUPPTBH"
  by (simp add: decode_unfold)

lemma decode_class_error:
  "36 \<le> length blob \<Longrightarrow> get_int16 h (take 2 (drop 14 blob)) = 36 \<Longrightarrow>
   take 12 blob = take 12 TBH_MAGIC \<Longrightarrow>
   mxClassID_of_int32 (get_int32 h (take 4 (drop 16 blob))) = None
     \<or> (\<exists>c. mxClassID_of_int32 (get_int32 h (take 4 (drop 16 blob))) = Some c
           \<and> \<not> typed_blob_class c) \<Longrightarrow>
   decode_typed_blob h blob = Inl MSG_UNSUPPVARTYPE"
  by (auto simp: decode_unfold)

lemma decode_array_error:
  "36 \<le> length blob \<Longrightarrow> get_int16 h (take 2 (drop 14 blob)) = 36 \<Longrightarrow>
   take 12 blob = take 12 TBH_MAGIC \<Longrightarrow>
   mxClassID_of_int32 (get_int32 h (take 4 (drop 16 blob))) = Some c \<Longrightarrow>
   typed_blob_class c \<Longrightarrow> nd = get_int32 h (take 4 (drop 32 blob)) \<Longrightarrow>
   36 + 4 * unat nd \<le> length blob \<Longrightarrow>
   mxCreateNumericArray h nd (get_dims h (take (4 * unat nd) (drop 36 blob)) (unat nd)) c = None \<Longrightarrow>
   decode_typed_blob h blob = Inl MSG_MEMERROR"
  by (simp add: decode_unfold)

lemma decode_size_error:
  assumes "36 \<le> length blob" and "length blob < 2 ^ 31"
    and "get_int16 h (take 2 (drop 14 blob)) = 36"
    and "take 12 blob = take 12 TBH_MAGIC"
    and "mxClassID_of_int32 (get_int32 h (take 4 (drop 16 blob))) = Some c"
    and "typed_blob_class c"
    and "nd = get_int32 h (take 4 (drop 32 blob))"
    and "36 + 4 * unat nd \<le> length blob"
    and "mxCreateNumericArray h nd (get_dims h (take (4 * unat nd) (drop 36 blob)) (unat nd)) c
          = Some numel"
    and "length blob - (36 + 4 * unat nd) \<noteq> numel * mxGetElementSize h c"
  shows "decode_typed_blob h blob = Inl MSG_INVALIDARG"
proof -
  have sz: "sint ((of_nat (length blob) :: 32 word) - TBH_DATA_OFFSET nd)
      = int (length blob - (36 + 4 * unat nd))"
    using assms(8,2) by (rule size_field_sint)
  have "int (length blob - (36 + 4 * unat nd)) \<noteq> int (numel * mxGetElementSize h c)"
    using assms(10) by (simp only: of_nat_eq_iff) simp
  with sz have ne: "sint ((of_nat (length blob) :: 32 word) - TBH_DATA_OFFSET nd)
      \<noteq> int (numel * mxGetElementSize h c)"
    by (simp only:) simp
  show ?thesis
    using assms(1,3,4,5,6,8,9) ne
    by (simp add: decode_unfold assms(7)[symmetric] del: of_nat_mult)
qed

lemma decode_truncated:
  assumes ok: "decode_typed_blob h blob = Inr (w, c, dims, payload)"
    and ne: "payload \<noteq> []"
    and small: "length blob < 2 ^ 31"
  shows "decode_typed_blob h (butlast blob) = Inl MSG_INVALIDARG"
proof -
  define nd where "nd = get_int32 h (take 4 (drop 32 blob))"
  define sizeBlob where "sizeBlob = (of_nat (length blob) :: 32 word) - TBH_DATA_OFFSET nd"
  from ok have hdr: "36 \<le> length blob" "get_int16 h (take 2 (drop 14 blob)) = 36"
    "take 12 blob = take 12 TBH_MAGIC"
    by (simp_all add: decode_unfold split: if_splits)
  from ok hdr obtain c' where c': "mxClassID_of_int32 (get_int32 h (take 4 (drop 16 blob))) = Some c'"
    "typed_blob_class c'" "36 + 4 * unat nd \<le> length blob"
    by (auto simp: decode_unfold nd_def split: if_splits option.splits)
  from ok hdr c' obtain numel where numel:
    "mxCreateNumericArray h nd (get_dims h (take (4 * unat nd) (drop 36 blob)) (unat nd)) c'
       = Some numel"
    "sint sizeBlob = int (numel * mxGetElementSize h c')"
    "unat (TBH_DATA_OFFSET nd) + unat sizeBlob \<le> length blob"
    "payload = take (unat sizeBlob) (drop (unat (TBH_DATA_OFFSET nd)) blob)"
    by (auto simp: decode_unfold nd_def[symmetric] sizeBlob_def[symmetric]
          simp del: of_nat_mult split: if_splits option.splits)
  have off: "unat (TBH_DATA_OFFSET nd) = 36 + 4 * unat nd"
    using c'(3) small by (intro data_offset_nat) simp
  from ne numel(4) have pos: "0 < unat sizeBlob" by auto
  with numel(3) off have room: "36 + 4 * unat nd \<le> length blob - 1" by simp
  let ?t = "butlast blob"
  have len: "length ?t = length blob - 1" by simp
  have bt: "?t = take (length blob - 1) blob" by (simp add: butlast_conv_take)
  have same: "take 2 (drop 14 ?t) = take 2 (drop 14 blob)" "take 12 ?t = take 12 blob"
    "take 4 (drop 16 ?t) = take 4 (drop 16 blob)" "take 4 (drop 32 ?t) = take 4 (drop 32 blob)"
    "take (4 * unat nd) (drop 36 ?t) = take (4 * unat nd) (drop 36 blob)"
    using room hdr(1) unfolding bt by (simp_all add: drop_take)
  have whole: "sint sizeBlob = int (length blob - (36 + 4 * unat nd))"
    unfolding sizeBlob_def using c'(3) small by (rule size_field_sint)
  have "length blob - 1 < 2 ^ 31" using small by simp
  with room have cut: "sint ((of_nat (length blob - 1) :: 32 word) - TBH_DATA_OFFSET nd)
      = int (length blob - 1 - (36 + 4 * unat nd))"
    by (rule size_field_sint)
  have "length blob - 1 - (36 + 4 * unat nd) \<noteq> length blob - (36 + 4 * unat nd)"
    using room hdr(1) by simp
  then have "int (length blob - 1 - (36 + 4 * unat nd)) \<noteq> int (length blob - (36 + 4 * unat nd))"
    by (simp only: of_nat_eq_iff) simp
  with cut whole numel(2)
  have mismatch: "sint ((of_nat (length blob - 1) :: 32 word) - TBH_DATA_OFFSET nd)
      \<noteq> int (numel * mxGetElementSize h c')"
    by (simp only:) simp
  show ?thesis
    using hdr room c' numel(1) mismatch
    by (simp add: decode_unfold[of h ?t] same nd_def[symmetric]
          del: butlast_conv_take length_butlast of_nat_mult)
       (simp add: len del: of_nat_mult)
qed

text \<open>
  C2, as stated: flipping any byte of the magic tag makes decoding fail. The magic field
  of the header has thirteen bytes, the twelve characters and the terminator, and the
  reader compares twelve: the block written for a 1-by-3 \<^verbatim>\<open>uint8\<close> array, with the
  terminator byte of its magic replaced by 1, is decoded to the same array. The same
  error, \<open>MSG_UNSUPPTBH\<close>, answers a wrong character of the magic and a wrong version.
  And the size is compared last: a block with a right magic and version that names no
  supported class ends with \<open>MSG_UNSUPPVARTYPE\<close> however long its payload is.
\<close>

theorem magic_field_flip_accepted:
  "encode_typed_blob pcwin (MxArray mxUINT8_CLASS [1, 3] False [7, 8, 9] None []) =
     Inr [109, 107, 83, 81, 76, 105, 116, 101, 46, 116, 98, 104, 0, 205, 36, 0,
          9, 0, 0, 0, 80, 67, 87, 73, 78, 0, 0, 0, 0, 0, 205, 76,
          2, 0, 0, 0, 1, 0, 0, 0, 3, 0, 0, 0, 7, 8, 9]
   \<and> decode_typed_blob pcwin
       [109, 107, 83, 81, 76, 105, 116, 101, 46, 116, 98, 104, 1, 205, 36, 0,
        9, 0, 0, 0, 80, 67, 87, 73, 78, 0, 0, 0, 0, 0, 205, 76,
        2, 0, 0, 0, 1, 0, 0, 0, 3, 0, 0, 0, 7, 8, 9] =
     Inr ([], mxUINT8_CLASS, [1, 3], [7, 8, 9])
   \<and> decode_typed_blob pcwin
       [109, 107, 83, 81, 76, 105, 116, 101, 46, 116, 98, 105, 0, 205, 36, 0,
        9, 0, 0, 0, 80, 67, 87, 73, 78, 0, 0, 0, 0, 0, 205, 76,
        2, 0, 0, 0, 1, 0, 0, 0, 3, 0, 0, 0, 7, 8, 9] = Inl MSG_UNSUPPTBH
   \<and> decode_typed_blob pcwin
       [109, 107, 83, 81, 76, 105, 116, 101, 46, 116, 98, 104, 0, 205, 37, 0,
        9, 0, 0, 0, 80, 67, 87, 73, 78, 0, 0, 0, 0, 0, 205, 76,
        2, 0, 0, 0, 1, 0, 0, 0, 3, 0, 0, 0, 7, 8, 9] = Inl MSG_UNSUPPTBH
   \<and> decode_typed_blob pcwin
       [109, 107, 83, 81, 76, 105, 116, 101, 46, 116, 98, 104, 0, 205, 36, 0,
        100, 0, 0, 0, 80, 67, 87, 73, 78, 0, 0, 0, 0, 0, 205, 76,
        2, 0, 0, 0, 1, 0, 0, 0, 3, 0, 0, 0, 7, 8] = Inl MSG_UNSUPPVARTYPE"
  by code_simp

text \<open>
  C2, amended. For a blob that holds the fixed part of the header (its length is an
  \<^verbatim>\<open>int\<close>, below \<open>2^31\<close>), the checks in their order. Decoding fails with \<open>MSG_UNSUPPTBH\<close>
  when the version field differs from the size of the header, 36, and when the first
  twelve bytes differ from the twelve characters of the magic, so when any one of these
  twelve bytes of a blob with the right magic is replaced by another value. With a
  right magic and version it fails with \<open>MSG_UNSUPPVARTYPE\<close> when the class is not one
  the writer accepts. With a supported class and the declared sizes inside the blob it
  fails with \<open>MSG_MEMERROR\<close> when the host creates no array, and with \<open>MSG_INVALIDARG\<close>
  when the bytes behind the sizes are not as many as the number of elements of the
  array the host created times the element size, whatever that number is. A blob that
  decodes to a payload that is not empty fails with \<open>MSG_INVALIDARG\<close> once its last
  byte is cut off.
\<close>

theorem typed_blob_decode_errors:
  assumes "length blob < 2 ^ 31"
  shows "(16 \<le> length blob \<and> get_int16 h (take 2 (drop 14 blob)) \<noteq> 36 \<longrightarrow>
            decode_typed_blob h blob = Inl MSG_UNSUPPTBH)
       \<and> (36 \<le> length blob \<and> take 12 blob \<noteq> take 12 TBH_MAGIC \<longrightarrow>
            decode_typed_blob h blob = Inl MSG_UNSUPPTBH)
       \<and> (36 \<le> length blob \<and> take 12 blob = take 12 TBH_MAGIC \<and> i < 12 \<and> v \<noteq> blob ! i \<longrightarrow>
            decode_typed_blob h (blob[i := v]) = Inl MSG_UNSUPPTBH)
       \<and> (36 \<le> length blob \<and> get_int16 h (take 2 (drop 14 blob)) = 36
            \<and> take 12 blob = take 12 TBH_MAGIC
            \<and> (mxClassID_of_int32 (get_int32 h (take 4 (drop 16 blob))) = None
                \<or> (\<exists>u. mxClassID_of_int32 (get_int32 h (take 4 (drop 16 blob))) = Some u
                      \<and> \<not> typed_blob_class u)) \<longrightarrow>
            decode_typed_blob h blob = Inl MSG_UNSUPPVARTYPE)
       \<and> (36 \<le> length blob \<and> get_int16 h (take 2 (drop 14 blob)) = 36
            \<and> take 12 blob = take 12 TBH_MAGIC
            \<and> mxClassID_of_int32 (get_int32 h (take 4 (drop 16 blob))) = Some c
            \<and> typed_blob_class c
            \<and> nd = get_int32 h (take 4 (drop 32 blob))
            \<and> 36 + 4 * unat nd \<le> length blob \<longrightarrow>
            (mxCreateNumericArray h nd
                  (get_dims h (take (4 * unat nd) (drop 36 blob)) (unat nd)) c = None \<longrightarrow>
               decode_typed_blob h blob = Inl MSG_MEMERROR)
          \<and> (mxCreateNumericArray h nd
                  (get_dims h (take (4 * unat nd) (drop 36 blob)) (unat nd)) c = Some numel
               \<and> length blob - (36 + 4 * unat nd) \<noteq> numel * mxGetElementSize h c \<longrightarrow>
               decode_typed_blob h blob = Inl MSG_INVALIDARG))
       \<and> (decode_typed_blob h blob = Inr (w, c', dims, payload) \<and> payload \<noteq> [] \<longrightarrow>
            decode_typed_blob h (butlast blob) = Inl MSG_INVALIDARG)"
proof -
  have flip: "decode_typed_blob h (blob[i := v]) = Inl MSG_UNSUPPTBH"
    if a: "36 \<le> length blob" "take 12 blob = take 12 TBH_MAGIC" "i < 12" "v \<noteq> blob ! i"
  proof -
    have "take 12 (blob[i := v]) ! i = v" using a(1,3) by simp
    moreover have "take 12 blob ! i = blob ! i" using a(3) by simp
    ultimately have "take 12 (blob[i := v]) \<noteq> take 12 blob" using a(4) by metis
    with a(1,2) show ?thesis
      by (intro decode_magic_error) simp_all
  qed
  have cls: "decode_typed_blob h blob = Inl MSG_UNSUPPVARTYPE"
    if "36 \<le> length blob" "get_int16 h (take 2 (drop 14 blob)) = 36"
      "take 12 blob = take 12 TBH_MAGIC"
      "mxClassID_of_int32 (get_int32 h (take 4 (drop 16 blob))) = None
        \<or> (\<exists>u. mxClassID_of_int32 (get_int32 h (take 4 (drop 16 blob))) = Some u
              \<and> \<not> typed_blob_class u)"
    using that by (rule decode_class_error)
  show ?thesis
    using assms decode_version_error[of blob h] decode_magic_error[of blob h] flip cls
      decode_array_error[of blob h c nd]
      decode_size_error[of blob h c nd numel] decode_truncated[of h blob w c' dims payload]
    by blast
qed

theorem typed_blob_decode_errors_witness:
  "decode_typed_blob pcwin
       [109, 107, 83, 81, 76, 105, 116, 101, 46, 116, 98, 104, 0, 205, 35, 0,
        9, 0, 0, 0, 80, 67, 87, 73, 78, 0, 0, 0, 0, 0, 205, 76,
        2, 0, 0, 0, 2, 0, 0, 0, 2, 0, 0, 0, 1, 2, 3, 4] = Inl MSG_UNSUPPTBH
   \<and> decode_typed_blob pcwin
       [109, 107, 83, 81, 76, 105, 116, 101, 46, 116, 98, 104, 0, 205, 36, 0,
        9, 0, 0, 0, 80, 67, 87, 73, 78, 0, 0, 0, 0, 0, 205, 76,
        2, 0, 0, 0, 2, 0, 0, 0, 2, 0, 0, 0, 1, 2, 3] = Inl MSG_INVALIDARG
   \<and> decode_typed_blob pcwin
       [109, 107, 83, 7, 76, 105, 116, 101, 46, 116, 98, 104, 0, 205, 36, 0,
        9, 0, 0, 0, 80, 67, 87, 73, 78, 0, 0, 0, 0, 0, 205, 76,
        2, 0, 0, 0, 2, 0, 0, 0, 2, 0, 0, 0, 1, 2, 3, 4] = Inl MSG_UNSUPPTBH
   \<and> decode_typed_blob pcwin
       [109, 107, 83, 81, 76, 105, 116, 101, 46, 116, 98, 104, 0, 205, 36, 0,
        9, 0, 0, 0, 80, 67, 87, 73, 78, 0, 0, 0, 0, 0, 205, 76,
        2, 0, 0, 0, 0, 0, 1, 0, 0, 0, 1, 0] = Inl MSG_INVALIDARG
   \<and> decode_typed_blob pcwin
       [109, 107, 83, 81, 76, 105, 116, 101, 46, 116, 98, 104, 0, 205, 36, 0,
        100, 0, 0, 0, 80, 67, 87, 73, 78, 0, 0, 0, 0, 0, 205, 76,
        2, 0, 0, 0, 2, 0, 0, 0, 2, 0, 0, 0, 1, 2, 3] = Inl MSG_UNSUPPVARTYPE"
proof -
  let ?bad = "[109, 107, 83, 81, 76, 105, 116, 101, 46, 116, 98, 104, 0, 205, 35, 0,
        9, 0, 0, 0, 80, 67, 87, 73, 78, 0, 0, 0, 0, 0, 205, 76,
        2, 0, 0, 0, 2, 0, 0, 0, 2, 0, 0, 0, 1, 2, 3, 4] :: byte list"
  let ?blob = "[109, 107, 83, 81, 76, 105, 116, 101, 46, 116, 98, 104, 0, 205, 36, 0,
        9, 0, 0, 0, 80, 67, 87, 73, 78, 0, 0, 0, 0, 0, 205, 76,
        2, 0, 0, 0, 2, 0, 0, 0, 2, 0, 0, 0, 1, 2, 3, 4] :: byte list"
  let ?huge = "[109, 107, 83, 81, 76, 105, 116, 101, 46, 116, 98, 104, 0, 205, 36, 0,
        9, 0, 0, 0, 80, 67, 87, 73, 78, 0, 0, 0, 0, 0, 205, 76,
        2, 0, 0, 0, 0, 0, 1, 0, 0, 0, 1, 0] :: byte list"
  let ?cls = "[109, 107, 83, 81, 76, 105, 116, 101, 46, 116, 98, 104, 0, 205, 36, 0,
        100, 0, 0, 0, 80, 67, 87, 73, 78, 0, 0, 0, 0, 0, 205, 76,
        2, 0, 0, 0, 2, 0, 0, 0, 2, 0, 0, 0, 1, 2, 3] :: byte list"
  have l1: "length ?bad < 2 ^ 31" by simp
  have v: "16 \<le> length ?bad \<and> get_int16 pcwin (take 2 (drop 14 ?bad)) \<noteq> 36"
    by code_simp
  have l2: "length ?blob < 2 ^ 31" by simp
  have d: "decode_typed_blob pcwin ?blob = Inr ([], mxUINT8_CLASS, [2, 2], [1, 2, 3, 4])"
    by code_simp
  have p: "[1, 2, 3, 4] \<noteq> ([] :: byte list)" by simp
  have m: "36 \<le> length ?blob \<and> take 12 ?blob = take 12 TBH_MAGIC \<and> (3 :: nat) < 12
      \<and> (7 :: byte) \<noteq> ?blob ! 3"
    by (simp add: TBH_MAGIC_bytes)
  have l3: "length ?huge < 2 ^ 31" by simp
  have hd: "36 \<le> length ?huge \<and> get_int16 pcwin (take 2 (drop 14 ?huge)) = 36
      \<and> take 12 ?huge = take 12 TBH_MAGIC
      \<and> mxClassID_of_int32 (get_int32 pcwin (take 4 (drop 16 ?huge))) = Some mxUINT8_CLASS
      \<and> typed_blob_class mxUINT8_CLASS
      \<and> 2 = get_int32 pcwin (take 4 (drop 32 ?huge))"
    by code_simp
  have le: "big_endian pcwin = False" by (simp add: pcwin_def)
  have two: "unat (2 :: 32 word) = Suc (Suc 0)" by simp
  have gd: "get_dims pcwin (take (4 * unat (2 :: 32 word)) (drop 36 ?huge)) (unat (2 :: 32 word))
      = [65536, 65536]"
    by (simp only: two get_dims.simps) (simp add: get_int32_def le)
  have "mxCreateNumericArray pcwin 2 [65536, 65536] mxUINT8_CLASS = Some 4294967296"
    by (simp add: pcwin_def)
  then have cr: "mxCreateNumericArray pcwin 2
      (get_dims pcwin (take (4 * unat (2 :: 32 word)) (drop 36 ?huge)) (unat (2 :: 32 word)))
      mxUINT8_CLASS = Some 4294967296"
    by (simp only: gd)
  have sz: "36 + 4 * unat (2 :: 32 word) \<le> length ?huge
      \<and> length ?huge - (36 + 4 * unat (2 :: 32 word))
           \<noteq> 4294967296 * mxGetElementSize pcwin mxUINT8_CLASS"
    by (simp add: pcwin_def)
  have l4: "length ?cls < 2 ^ 31" by simp
  have k: "36 \<le> length ?cls \<and> get_int16 pcwin (take 2 (drop 14 ?cls)) = 36
      \<and> take 12 ?cls = take 12 TBH_MAGIC
      \<and> mxClassID_of_int32 (get_int32 pcwin (take 4 (drop 16 ?cls))) = None"
    by code_simp
  have "decode_typed_blob pcwin ?bad = Inl MSG_UNSUPPTBH"
    using typed_blob_decode_errors[OF l1, where h = pcwin] v by blast
  moreover have "decode_typed_blob pcwin (butlast ?blob) = Inl MSG_INVALIDARG"
    using typed_blob_decode_errors[OF l2, where h = pcwin and w = "[]" and c' = mxUINT8_CLASS
        and dims = "[2, 2]" and payload = "[1, 2, 3, 4]"] d p
    by blast
  moreover have "decode_typed_blob pcwin (?blob[3 := 7]) = Inl MSG_UNSUPPTBH"
    using typed_blob_decode_errors[OF l2, where h = pcwin and i = 3 and v = 7] m by blast
  moreover have "decode_typed_blob pcwin ?huge = Inl MSG_INVALIDARG"
    using typed_blob_decode_errors[OF l3, where h = pcwin and c = mxUINT8_CLASS and nd = 2
        and numel = 4294967296] hd sz cr
    by blast
  moreover have "decode_typed_blob pcwin ?cls = Inl MSG_UNSUPPVARTYPE"
    using typed_blob_decode_errors[OF l4, where h = pcwin] k by blast
  ultimately show ?thesis by simp
qed

section \<open>Proofs: the size bound of typed BLOBs\<close>

lemma sizeBlob_of_nat:
  "TBH_DATA_OFFSET (of_nat n) + (of_nat N :: 32 word) = of_nat (32 + 4 * (n + 1) + N)"
  by (simp add: TBH_DATA_OFFSET_def)

lemma encode_too_big:
  "sint (TBH_DATA_OFFSET (of_nat (length (mxGetDimensions item)))
     + of_nat (mxGetNumberOfElements item * mxGetElementSize h (mxGetClassID item)) :: 32 word)
     > sint MQSQLITE_MAX_BLOB_SIZE \<Longrightarrow>
   encode_typed_blob h item = Inl MSG_BLOBTOOBIG"
  by (simp add: encode_typed_blob_def Let_def)

lemma encode_no_block:
  "sint (TBH_DATA_OFFSET (of_nat (length (mxGetDimensions item)))
     + of_nat (mxGetNumberOfElements item * mxGetElementSize h (mxGetClassID item)) :: 32 word)
     \<le> 0 \<Longrightarrow>
   typed_blob_class (mxGetClassID item) \<Longrightarrow>
   encode_typed_blob h item = Inl MSG_MEMERROR"
  by (simp add: encode_typed_blob_def Let_def sint_MAX_BLOB)

lemma bind_item_typed:
  "use_typed_blobs cfg \<Longrightarrow> 1 < mxGetNumberOfElements item \<Longrightarrow>
   mxGetClassID item \<noteq> mxCHAR_CLASS \<Longrightarrow>
   \<not> mxIsComplex item \<Longrightarrow> \<not> mxIsCell item \<Longrightarrow> \<not> mxIsStruct item \<Longrightarrow>
   bind_item h cfg iParam item =
     (case encode_typed_blob h item of
        Inl e \<Rightarrow> Inl e
      | Inr blob \<Rightarrow> engine h (sqlite3_bind_blob (iParam + 1) blob sqlite3_free))"
  by (simp add: bind_item_def Let_def)

text \<open>
  A store into a block of \<open>S\<close> bytes leaves a block of \<open>S\<close> bytes or the failure
  \<open>OUT_OF_BOUNDS\<close>, and a store that ends behind the block fails.
\<close>

lemma store_shape:
  "m = Inl OUT_OF_BOUNDS \<or> (\<exists>mem. m = Inr mem \<and> length mem = S) \<Longrightarrow>
   store m off bs = Inl OUT_OF_BOUNDS \<or> (\<exists>mem. store m off bs = Inr mem \<and> length mem = S)"
  by (auto simp: store_def length_write_bytes)

lemma store_dims_shape:
  "m = Inl OUT_OF_BOUNDS \<or> (\<exists>mem. m = Inr mem \<and> length mem = S) \<Longrightarrow>
   store_dims h m j dims = Inl OUT_OF_BOUNDS
     \<or> (\<exists>mem. store_dims h m j dims = Inr mem \<and> length mem = S)"
proof (induction dims arbitrary: m j)
  case Nil
  then show ?case by simp
next
  case (Cons d dims)
  from store_shape[OF Cons.prems]
  have "store m (32 + 4 * (j + 1)) (put_int32 h (of_nat d)) = Inl OUT_OF_BOUNDS
      \<or> (\<exists>mem. store m (32 + 4 * (j + 1)) (put_int32 h (of_nat d)) = Inr mem \<and> length mem = S)" .
  from Cons.IH[OF this] show ?case by simp
qed

lemma store_overrun:
  "m = Inl OUT_OF_BOUNDS \<or> (\<exists>mem. m = Inr mem \<and> length mem = S) \<Longrightarrow>
   S < off + length bs \<Longrightarrow> store m off bs = Inl OUT_OF_BOUNDS"
  by (auto simp: store_def)

text \<open>
  When the 32-bit sum is positive and not above the bound while the data are longer
  than the block of that many bytes has room for, \<^verbatim>\<open>memcpy\<close> writes behind the block.
\<close>

lemma encode_overrun:
  assumes cls: "typed_blob_class (mxGetClassID item)"
    and sb: "sizeBlob = TBH_DATA_OFFSET (of_nat (length (mxGetDimensions item)))
        + of_nat (mxGetNumberOfElements item * mxGetElementSize h (mxGetClassID item))"
    and ok: "\<not> sint sizeBlob > sint MQSQLITE_MAX_BLOB_SIZE" "0 < sint sizeBlob"
    and alloc: "sqlite3_malloc h (nat (sint sizeBlob))"
    and len: "length (mxGetData item) =
        mxGetNumberOfElements item * mxGetElementSize h (mxGetClassID item)"
    and over: "nat (sint sizeBlob) <
        32 + 4 * (length (mxGetDimensions item) + 1) + length (mxGetData item)"
  shows "encode_typed_blob h item = Inl OUT_OF_BOUNDS"
proof -
  define S where "S = nat (sint sizeBlob)"
  define n where "n = length (mxGetDimensions item)"
  define t0 :: "error + byte list" where "t0 = Inr (map (uninitialised h) [0..<S])"
  define t1 where "t1 = store t0 14 (put_int16 h (of_nat sizeof_typed_BLOB_header))"
  define t2 where "t2 = store t1 16 (put_int32 h (int32_of_mxClassID (mxGetClassID item)))"
  define t3 where "t3 = store t2 31 [g_endian h]"
  define t4 where "t4 = store t3 32 (put_int32 h (of_nat n))"
  define t5 where "t5 = store t4 0 TBH_MAGIC"
  define t6 where "t6 = store t5 20 (strncpy (g_platform h) 10)"
  define t7 where "t7 = store_dims h t6 0 (mxGetDimensions item)"
  have s0: "t0 = Inl OUT_OF_BOUNDS \<or> (\<exists>mem. t0 = Inr mem \<and> length mem = S)"
    by (simp add: t0_def)
  have s1: "t1 = Inl OUT_OF_BOUNDS \<or> (\<exists>mem. t1 = Inr mem \<and> length mem = S)"
    unfolding t1_def using s0 by (rule store_shape)
  have s2: "t2 = Inl OUT_OF_BOUNDS \<or> (\<exists>mem. t2 = Inr mem \<and> length mem = S)"
    unfolding t2_def using s1 by (rule store_shape)
  have s3: "t3 = Inl OUT_OF_BOUNDS \<or> (\<exists>mem. t3 = Inr mem \<and> length mem = S)"
    unfolding t3_def using s2 by (rule store_shape)
  have s4: "t4 = Inl OUT_OF_BOUNDS \<or> (\<exists>mem. t4 = Inr mem \<and> length mem = S)"
    unfolding t4_def using s3 by (rule store_shape)
  have s5: "t5 = Inl OUT_OF_BOUNDS \<or> (\<exists>mem. t5 = Inr mem \<and> length mem = S)"
    unfolding t5_def using s4 by (rule store_shape)
  have s6: "t6 = Inl OUT_OF_BOUNDS \<or> (\<exists>mem. t6 = Inr mem \<and> length mem = S)"
    unfolding t6_def using s5 by (rule store_shape)
  have s7: "t7 = Inl OUT_OF_BOUNDS \<or> (\<exists>mem. t7 = Inr mem \<and> length mem = S)"
    unfolding t7_def using s6 by (rule store_dims_shape)
  have "S < 32 + 4 * (n + 1) + length (mxGetData item)"
    using over by (simp add: S_def n_def)
  with s7 have last: "store t7 (32 + 4 * (n + 1)) (mxGetData item) = Inl OUT_OF_BOUNDS"
    by (rule store_overrun)
  have ld: "load (mxGetData item) 0
       (mxGetNumberOfElements item * mxGetElementSize h (mxGetClassID item)) = Inr (mxGetData item)"
    using len by (simp add: load_def)
  have pos: "\<not> sint sizeBlob \<le> 0" using ok(2) by simp
  have sbn: "TBH_DATA_OFFSET (of_nat n)
        + of_nat (mxGetNumberOfElements item * mxGetElementSize h (mxGetClassID item))
      = sizeBlob"
    by (simp only: sb n_def)
  show ?thesis
    unfolding encode_typed_blob_def Let_def
    using cls ok(1) pos alloc
    by (simp only: n_def[symmetric] sbn S_def[symmetric] t0_def[symmetric]
          t1_def[symmetric] t2_def[symmetric] t3_def[symmetric] t4_def[symmetric]
          t5_def[symmetric] t6_def[symmetric] t7_def[symmetric] ld last
          if_False if_True not_not sum.case simp_thms)
qed

text \<open>
  C7, where the sum does not wrap. \<open>sizeBlob\<close> is the offset of the data for \<open>n\<close>
  dimensions plus \<open>N\<close>, the number of elements times the element size, as an \<^verbatim>\<open>int\<close>.
  The writer fails with \<open>MSG_BLOBTOOBIG\<close> when \<open>sizeBlob\<close> is greater than
  \<open>MQSQLITE_MAX_BLOB_SIZE\<close>, so when the total \<open>32 + 4 * (n + 1) + N\<close>, below \<open>2^31\<close>, is
  greater than the bound, and when it is the bound plus one. When the total is the bound
  itself, the class is one of the writer's, the data are \<open>N\<close> bytes and the block is
  allocated, the writer returns a block of exactly that many bytes. In the binder, with
  typed BLOBs switched on and an item of more than one element that is not text, the
  first case ends the call with \<open>MSG_BLOBTOOBIG\<close> and the last hands the block to the
  engine.
\<close>

theorem oversized_blob_bound:
  assumes "n = length (mxGetDimensions item)"
    and "N = mxGetNumberOfElements item * mxGetElementSize h (mxGetClassID item)"
  shows "(sint (TBH_DATA_OFFSET (of_nat n) + of_nat N :: 32 word) > sint MQSQLITE_MAX_BLOB_SIZE \<longrightarrow>
            encode_typed_blob h item = Inl MSG_BLOBTOOBIG)
       \<and> (unat MQSQLITE_MAX_BLOB_SIZE < 32 + 4 * (n + 1) + N \<and> 32 + 4 * (n + 1) + N < 2 ^ 31 \<longrightarrow>
            encode_typed_blob h item = Inl MSG_BLOBTOOBIG)
       \<and> (32 + 4 * (n + 1) + N = unat MQSQLITE_MAX_BLOB_SIZE + 1 \<longrightarrow>
            encode_typed_blob h item = Inl MSG_BLOBTOOBIG)
       \<and> (32 + 4 * (n + 1) + N = unat MQSQLITE_MAX_BLOB_SIZE
            \<and> typed_blob_class (mxGetClassID item) \<and> length (mxGetData item) = N
            \<and> sqlite3_malloc h (unat MQSQLITE_MAX_BLOB_SIZE) \<longrightarrow>
            (\<exists>blob. encode_typed_blob h item = Inr blob
               \<and> length blob = unat MQSQLITE_MAX_BLOB_SIZE))
       \<and> (use_typed_blobs cfg \<and> 1 < mxGetNumberOfElements item
            \<and> mxGetClassID item \<noteq> mxCHAR_CLASS
            \<and> \<not> mxIsComplex item \<and> \<not> mxIsCell item \<and> \<not> mxIsStruct item \<longrightarrow>
            (sint (TBH_DATA_OFFSET (of_nat n) + of_nat N :: 32 word) > sint MQSQLITE_MAX_BLOB_SIZE \<longrightarrow>
               bind_item h cfg iParam item = Inl MSG_BLOBTOOBIG)
          \<and> (32 + 4 * (n + 1) + N = unat MQSQLITE_MAX_BLOB_SIZE
               \<and> typed_blob_class (mxGetClassID item) \<and> length (mxGetData item) = N
               \<and> sqlite3_malloc h (unat MQSQLITE_MAX_BLOB_SIZE) \<longrightarrow>
               (\<exists>blob. length blob = unat MQSQLITE_MAX_BLOB_SIZE
                  \<and> bind_item h cfg iParam item =
                      engine h (sqlite3_bind_blob (iParam + 1) blob sqlite3_free))))"
proof -
  let ?T = "32 + 4 * (n + 1) + N"
  have word: "TBH_DATA_OFFSET (of_nat n) + (of_nat N :: 32 word) = of_nat ?T"
    by (rule sizeBlob_of_nat)
  have big: "encode_typed_blob h item = Inl MSG_BLOBTOOBIG"
    if "sint (TBH_DATA_OFFSET (of_nat n) + of_nat N :: 32 word) > sint MQSQLITE_MAX_BLOB_SIZE"
    using that unfolding assms by (rule encode_too_big)
  have over: "encode_typed_blob h item = Inl MSG_BLOBTOOBIG"
    if a: "unat MQSQLITE_MAX_BLOB_SIZE < ?T" "?T < 2 ^ 31"
  proof -
    from a(1) have "1073741823 < ?T" by (simp only: unat_MAX_BLOB)
    with a(2) have "sint (of_nat ?T :: 32 word) > sint MQSQLITE_MAX_BLOB_SIZE"
      by (simp only: too_big_iff)
    then show ?thesis using big by (simp only: word)
  qed
  have one: "encode_typed_blob h item = Inl MSG_BLOBTOOBIG"
    if a: "?T = unat MQSQLITE_MAX_BLOB_SIZE + 1"
  proof -
    have "unat MQSQLITE_MAX_BLOB_SIZE < ?T" using a by simp
    moreover have "?T < 2 ^ 31" using a by (simp add: unat_MAX_BLOB)
    ultimately show ?thesis by (rule over)
  qed
  have at: "\<exists>blob. encode_typed_blob h item = Inr blob \<and> length blob = unat MQSQLITE_MAX_BLOB_SIZE"
    if a: "?T = unat MQSQLITE_MAX_BLOB_SIZE" "typed_blob_class (mxGetClassID item)"
      "length (mxGetData item) = N" "sqlite3_malloc h (unat MQSQLITE_MAX_BLOB_SIZE)"
  proof -
    have len: "length (mxGetData item) =
        mxGetNumberOfElements item * mxGetElementSize h (mxGetClassID item)"
      using a(3) assms(2) by simp
    have t: "32 + 4 * (length (mxGetDimensions item) + 1) + length (mxGetData item)
        = unat MQSQLITE_MAX_BLOB_SIZE"
      using a(1,3) assms(1) by simp
    have fit: "32 + 4 * (length (mxGetDimensions item) + 1) + length (mxGetData item)
        \<le> unat MQSQLITE_MAX_BLOB_SIZE"
      using t by simp
    have alloc: "sqlite3_malloc h
        (32 + 4 * (length (mxGetDimensions item) + 1) + length (mxGetData item))"
      using a(4) by (simp only: t)
    from encode_layout[OF a(2) len fit alloc] t show ?thesis by metis
  qed
  have bind_big: "bind_item h cfg iParam item = Inl MSG_BLOBTOOBIG"
    if "use_typed_blobs cfg" "1 < mxGetNumberOfElements item" "mxGetClassID item \<noteq> mxCHAR_CLASS"
      "\<not> mxIsComplex item" "\<not> mxIsCell item" "\<not> mxIsStruct item"
      "sint (TBH_DATA_OFFSET (of_nat n) + of_nat N :: 32 word) > sint MQSQLITE_MAX_BLOB_SIZE"
    using bind_item_typed[OF that(1-6), of h iParam] big[OF that(7)] by simp
  have bind_at: "\<exists>blob. length blob = unat MQSQLITE_MAX_BLOB_SIZE
        \<and> bind_item h cfg iParam item = engine h (sqlite3_bind_blob (iParam + 1) blob sqlite3_free)"
    if "use_typed_blobs cfg" "1 < mxGetNumberOfElements item" "mxGetClassID item \<noteq> mxCHAR_CLASS"
      "\<not> mxIsComplex item" "\<not> mxIsCell item" "\<not> mxIsStruct item"
      "?T = unat MQSQLITE_MAX_BLOB_SIZE" "typed_blob_class (mxGetClassID item)"
      "length (mxGetData item) = N" "sqlite3_malloc h (unat MQSQLITE_MAX_BLOB_SIZE)"
  proof -
    from at[OF that(7-10)] obtain blob where
      b: "encode_typed_blob h item = Inr blob" "length blob = unat MQSQLITE_MAX_BLOB_SIZE"
      by blast
    from bind_item_typed[OF that(1-6), of h iParam] b show ?thesis by auto
  qed
  from big over one at bind_big bind_at show ?thesis by blast
qed

theorem oversized_blob_bound_witness:
  "(\<exists>blob. encode_typed_blob pcwin
        (MxArray mxUINT8_CLASS [1073741779, 1] False (replicate 1073741779 0) None []) = Inr blob
      \<and> length blob = 1073741823)
   \<and> encode_typed_blob pcwin
        (MxArray mxUINT8_CLASS [1073741780, 1] False (replicate 1073741780 0) None []) =
      Inl MSG_BLOBTOOBIG
   \<and> bind_item pcwin (initial_config\<lparr>use_typed_blobs := True\<rparr>) 0
        (MxArray mxUINT8_CLASS [1073741780, 1] False (replicate 1073741780 0) None []) =
      Inl MSG_BLOBTOOBIG"
proof -
  define cfg where "cfg = initial_config\<lparr>use_typed_blobs := True\<rparr>"
  define a where
    "a = MxArray mxUINT8_CLASS [1073741779, 1] False (replicate 1073741779 0) None []"
  define b where
    "b = MxArray mxUINT8_CLASS [1073741780, 1] False (replicate 1073741780 0) None []"
  have sz: "mxGetElementSize pcwin mxUINT8_CLASS = 1" by (simp add: pcwin_def)
  have an: "2 = length (mxGetDimensions a)" by (simp add: a_def)
  have aN: "1073741779 = mxGetNumberOfElements a * mxGetElementSize pcwin (mxGetClassID a)"
    by (simp add: a_def mxGetNumberOfElements_def sz)
  have a_at: "32 + 4 * (2 + 1) + 1073741779 = unat MQSQLITE_MAX_BLOB_SIZE
      \<and> typed_blob_class (mxGetClassID a) \<and> length (mxGetData a) = 1073741779
      \<and> sqlite3_malloc pcwin (unat MQSQLITE_MAX_BLOB_SIZE)"
    by (simp add: a_def unat_MAX_BLOB pcwin_def)
  have bn: "2 = length (mxGetDimensions b)" by (simp add: b_def)
  have bN: "1073741780 = mxGetNumberOfElements b * mxGetElementSize pcwin (mxGetClassID b)"
    by (simp add: b_def mxGetNumberOfElements_def sz)
  have b_over: "32 + 4 * (2 + 1) + 1073741780 = unat MQSQLITE_MAX_BLOB_SIZE + 1"
    by (simp add: unat_MAX_BLOB)
  have b_word: "sint (TBH_DATA_OFFSET (of_nat 2) + of_nat 1073741780 :: 32 word)
      > sint MQSQLITE_MAX_BLOB_SIZE"
    by (simp add: TBH_DATA_OFFSET_def MQSQLITE_MAX_BLOB_SIZE_def)
  have b_item: "use_typed_blobs cfg \<and> 1 < mxGetNumberOfElements b
      \<and> mxGetClassID b \<noteq> mxCHAR_CLASS
      \<and> \<not> mxIsComplex b \<and> \<not> mxIsCell b \<and> \<not> mxIsStruct b"
    by (simp add: cfg_def b_def mxGetNumberOfElements_def mxIsCell_def mxIsStruct_def)
  have "\<exists>blob. encode_typed_blob pcwin a = Inr blob \<and> length blob = 1073741823"
    using oversized_blob_bound[OF an aN, where cfg = cfg and iParam = 0] a_at
    by (simp only: unat_MAX_BLOB)
  moreover have "encode_typed_blob pcwin b = Inl MSG_BLOBTOOBIG"
    using oversized_blob_bound[OF bn bN, where cfg = cfg and iParam = 0] b_over by blast
  moreover have "bind_item pcwin cfg 0 b = Inl MSG_BLOBTOOBIG"
    using oversized_blob_bound[OF bn bN, where cfg = cfg and iParam = 0] b_item b_word by blast
  ultimately show ?thesis
    unfolding a_def b_def cfg_def by blast
qed

text \<open>
  C7, where the sum wraps. \<open>sizeBlob\<close> is an \<^verbatim>\<open>int\<close>, and a total of \<open>2^31\<close> or more does
  not fit. For a \<^verbatim>\<open>uint8\<close> array of 65536 by 32768 elements the total is 2147483692,
  above the bound; \<open>sizeBlob\<close> is -2147483604, the test of line 1018 lets it pass, and
  \<^verbatim>\<open>sqlite3_malloc\<close> of a negative size ends the call with \<open>MSG_MEMERROR\<close> instead of
  \<open>MSG_BLOBTOOBIG\<close>. For 65536 by 65536 elements the total is 4294967340 and \<open>sizeBlob\<close>
  is 44: the block has room for the header and the sizes, and \<^verbatim>\<open>memcpy\<close> writes
  4294967296 bytes behind it.
\<close>

theorem blob_size_wraps:
  "encode_typed_blob pcwin
      (MxArray mxUINT8_CLASS [65536, 32768] False (replicate 2147483648 0) None []) =
     Inl MSG_MEMERROR
   \<and> bind_item pcwin (initial_config\<lparr>use_typed_blobs := True\<rparr>) 0
      (MxArray mxUINT8_CLASS [65536, 32768] False (replicate 2147483648 0) None []) =
     Inl MSG_MEMERROR
   \<and> unat MQSQLITE_MAX_BLOB_SIZE < 32 + 4 * (2 + 1) + 65536 * 32768 * (1 :: nat)
   \<and> sint (TBH_DATA_OFFSET 2 + of_nat (65536 * 32768 * 1) :: 32 word) = - 2147483604
   \<and> encode_typed_blob pcwin
      (MxArray mxUINT8_CLASS [65536, 65536] False (replicate 4294967296 0) None []) =
     Inl OUT_OF_BOUNDS
   \<and> sint (TBH_DATA_OFFSET 2 + of_nat (65536 * 65536 * 1) :: 32 word) = 44"
proof -
  define cfg where "cfg = initial_config\<lparr>use_typed_blobs := True\<rparr>"
  define a where
    "a = MxArray mxUINT8_CLASS [65536, 32768] False (replicate 2147483648 0) None []"
  define b where
    "b = MxArray mxUINT8_CLASS [65536, 65536] False (replicate 4294967296 0) None []"
  have sz: "mxGetElementSize pcwin mxUINT8_CLASS = 1" by (simp add: pcwin_def)
  have wa: "sint (TBH_DATA_OFFSET 2 + of_nat (65536 * 32768 * 1) :: 32 word) = - 2147483604"
    by (simp add: TBH_DATA_OFFSET_def)
  have wb: "sint (TBH_DATA_OFFSET 2 + of_nat (65536 * 65536 * 1) :: 32 word) = 44"
    by (simp add: TBH_DATA_OFFSET_def)
  have a_sum: "TBH_DATA_OFFSET (of_nat (length (mxGetDimensions a)))
      + of_nat (mxGetNumberOfElements a * mxGetElementSize pcwin (mxGetClassID a))
      = (TBH_DATA_OFFSET 2 + of_nat (65536 * 32768 * 1) :: 32 word)"
    by (simp add: a_def mxGetNumberOfElements_def sz)
  have b_sum: "TBH_DATA_OFFSET 2 + of_nat (65536 * 65536 * 1)
      = (TBH_DATA_OFFSET (of_nat (length (mxGetDimensions b)))
          + of_nat (mxGetNumberOfElements b * mxGetElementSize pcwin (mxGetClassID b)) :: 32 word)"
    by (simp add: b_def mxGetNumberOfElements_def sz)
  have a_cls: "typed_blob_class (mxGetClassID a)" by (simp add: a_def)
  have b_cls: "typed_blob_class (mxGetClassID b)" by (simp add: b_def)
  have "sint (TBH_DATA_OFFSET (of_nat (length (mxGetDimensions a)))
      + of_nat (mxGetNumberOfElements a * mxGetElementSize pcwin (mxGetClassID a)) :: 32 word) \<le> 0"
    by (simp only: a_sum wa; simp)
  then have ea: "encode_typed_blob pcwin a = Inl MSG_MEMERROR"
    using a_cls by (rule encode_no_block)
  have a_item: "use_typed_blobs cfg" "1 < mxGetNumberOfElements a"
      "mxGetClassID a \<noteq> mxCHAR_CLASS" "\<not> mxIsComplex a" "\<not> mxIsCell a" "\<not> mxIsStruct a"
    by (simp_all add: cfg_def a_def mxGetNumberOfElements_def mxIsCell_def mxIsStruct_def)
  have ba: "bind_item pcwin cfg 0 a = Inl MSG_MEMERROR"
    using bind_item_typed[OF a_item, of pcwin 0] ea by simp
  have big: "unat MQSQLITE_MAX_BLOB_SIZE < 32 + 4 * (2 + 1) + 65536 * 32768 * (1 :: nat)"
    by (simp add: unat_MAX_BLOB)
  have b_len: "length (mxGetData b) =
      mxGetNumberOfElements b * mxGetElementSize pcwin (mxGetClassID b)"
    by (simp add: b_def mxGetNumberOfElements_def sz)
  have eb: "encode_typed_blob pcwin b = Inl OUT_OF_BOUNDS"
  proof (rule encode_overrun[OF b_cls b_sum _ _ _ b_len])
    show "\<not> sint MQSQLITE_MAX_BLOB_SIZE < sint (TBH_DATA_OFFSET 2 + of_nat (65536 * 65536 * 1) :: 32 word)"
      by (simp only: wb sint_MAX_BLOB; simp)
    show "0 < sint (TBH_DATA_OFFSET 2 + of_nat (65536 * 65536 * 1) :: 32 word)"
      by (simp only: wb; simp)
    show "sqlite3_malloc pcwin (nat (sint (TBH_DATA_OFFSET 2 + of_nat (65536 * 65536 * 1) :: 32 word)))"
      by (simp add: pcwin_def)
    show "nat (sint (TBH_DATA_OFFSET 2 + of_nat (65536 * 65536 * 1) :: 32 word))
        < 32 + 4 * (length (mxGetDimensions b) + 1) + length (mxGetData b)"
      by (simp only: wb; simp add: b_def)
  qed
  from ea ba big wa eb wb show ?thesis
    unfolding a_def b_def cfg_def by blast
qed

section \<open>Proofs: parameter binder\<close>

lemma bind_item_scalar:
  "\<not> mxIsComplex item \<Longrightarrow> \<not> mxIsCell item \<Longrightarrow> \<not> mxIsStruct item \<Longrightarrow>
   mxGetNumberOfElements item \<le> 1 \<or> mxGetClassID item = mxCHAR_CLASS \<Longrightarrow>
   bind_item h cfg iParam item = bind_scalar h cfg iParam item"
  by (auto simp: bind_item_def Let_def)

lemma bind_text_value_plain:
  "\<not> convertUTF8 cfg \<Longrightarrow> bind_text_value h cfg str_value = Inr str_value"
  by (simp add: bind_text_value_def split: option.splits)

lemma bind_text_value_utf:
  assumes "convertUTF8 cfg" and "0 \<notin> set x" and "2 * length x + 1 < 2 ^ 31"
    and "mxCalloc h (length (latin2utf_bytes x) + 1)"
  shows "bind_text_value h cfg (Some (x @ [0])) = Inr (Some (latin2utf_bytes x @ [0]))"
proof -
  have "length (latin2utf_bytes x) + 1 < 2 ^ 31"
    using length_latin2utf_bytes[of x] assms(3) by simp
  then have "sint (of_nat (length (latin2utf_bytes x)) + 1 :: 32 word) =
      int (length (latin2utf_bytes x)) + 1"
    by (rule sint_count)
  then have n: "nat (sint (of_nat (length (latin2utf_bytes x)) + 1 :: 32 word)) =
      length (latin2utf_bytes x) + 1"
    by simp
  have m: "latin2utf (Some (x @ [0])) None =
      Inr (of_nat (length (latin2utf_bytes x)) + 1, None)"
    using latin2utf_measure[OF assms(2), of "[]"] by simp
  have f: "latin2utf (Some (x @ [0])) (Some (replicate (length (latin2utf_bytes x) + 1) 0)) =
      Inr (of_nat (length (latin2utf_bytes x)) + 1, Some (latin2utf_bytes x @ [0]))"
    using latin2utf_fill[OF assms(2), of "replicate (length (latin2utf_bytes x) + 1) 0" "[]"]
    by simp
  show ?thesis
    unfolding bind_text_value_def using assms(1,4)
    by (simp only: option.case m sum.case prod.case n f if_True)
qed

lemma bind_scalar_other:
  "c = mxGetClassID item \<Longrightarrow>
   c \<notin> {mxLOGICAL_CLASS, mxINT8_CLASS, mxUINT8_CLASS, mxINT16_CLASS, mxINT32_CLASS,
         mxUINT16_CLASS, mxUINT32_CLASS, mxDOUBLE_CLASS, mxSINGLE_CLASS, mxCHAR_CLASS} \<Longrightarrow>
   bind_scalar h cfg iParam item = Inl MSG_INVALIDARG"
  by (cases c) (simp_all add: bind_scalar_def)

text \<open>
  C5, as stated: a single value of any integer class is bound as an integer. The
  \<^verbatim>\<open>switch\<close> names the classes of 8, 16 and 32 bits and \<^verbatim>\<open>mxLOGICAL_CLASS\<close>; a single
  value of class \<^verbatim>\<open>mxINT64_CLASS\<close> or \<^verbatim>\<open>mxUINT64_CLASS\<close> takes the \<^verbatim>\<open>default\<close> branch and
  the call ends with \<open>MSG_INVALIDARG\<close>, while the same value of class \<^verbatim>\<open>mxINT32_CLASS\<close>
  is bound with \<^verbatim>\<open>sqlite3_bind_int\<close>.
\<close>

theorem int64_scalar_rejected:
  "bind_item pcwin initial_config 0
       (MxArray mxINT64_CLASS [1, 1] False [5, 0, 0, 0, 0, 0, 0, 0] None []) = Inl MSG_INVALIDARG
   \<and> bind_item pcwin initial_config 0
       (MxArray mxUINT64_CLASS [1, 1] False [5, 0, 0, 0, 0, 0, 0, 0] None []) = Inl MSG_INVALIDARG
   \<and> bind_item pcwin initial_config 0
       (MxArray mxINT32_CLASS [1, 1] False [5, 0, 0, 0] None []) =
     Inr (sqlite3_bind_int 1 (Int_of_double (Double_of_first_element mxINT32_CLASS [5, 0, 0, 0])))"
  by code_simp

text \<open>
  C5, amended. For an item that is not complex and has one element, or is text: of
  class \<^verbatim>\<open>mxLOGICAL_CLASS\<close> or an integer class of 8, 16 or 32 bits it is bound with
  \<^verbatim>\<open>sqlite3_bind_int\<close> to the \<^verbatim>\<open>double\<close> of \<^verbatim>\<open>mxGetScalar\<close> cast to \<^verbatim>\<open>int\<close>; of class
  \<^verbatim>\<open>mxDOUBLE_CLASS\<close> or \<^verbatim>\<open>mxSINGLE_CLASS\<close> with \<^verbatim>\<open>sqlite3_bind_double\<close>; text with
  \<^verbatim>\<open>sqlite3_bind_text\<close>, as the string of the item when conversion is off and as its
  image under \<^verbatim>\<open>latin2utf\<close> when conversion is on and the buffer is allocated; a cell or
  a structure ends the call with \<open>MSG_UNSUPPVARTYPE\<close>; and every other class, the two
  integer classes of 64 bits among them, ends it with \<open>MSG_INVALIDARG\<close>. The call to the
  engine ends the call with \<open>SQL_ERR\<close> when the engine refuses.
\<close>

theorem scalar_dispatch:
  assumes "\<not> mxIsComplex item"
    and "mxGetNumberOfElements item = 1 \<or> mxGetClassID item = mxCHAR_CLASS"
  shows "(mxGetClassID item \<in> {mxLOGICAL_CLASS, mxINT8_CLASS, mxUINT8_CLASS, mxINT16_CLASS,
              mxINT32_CLASS, mxUINT16_CLASS, mxUINT32_CLASS} \<longrightarrow>
            bind_item h cfg iParam item =
              engine h (sqlite3_bind_int (iParam + 1) (Int_of_double (mxGetScalar item))))
       \<and> (mxGetClassID item \<in> {mxDOUBLE_CLASS, mxSINGLE_CLASS} \<longrightarrow>
            bind_item h cfg iParam item =
              engine h (sqlite3_bind_double (iParam + 1) (mxGetScalar item)))
       \<and> (mxGetClassID item = mxCHAR_CLASS \<and> \<not> convertUTF8 cfg \<longrightarrow>
            bind_item h cfg iParam item =
              engine h (sqlite3_bind_text (iParam + 1) (mxArrayToString item)))
       \<and> (mxGetClassID item = mxCHAR_CLASS \<and> convertUTF8 cfg
            \<and> mxArrayToString item = Some (x @ [0]) \<and> 0 \<notin> set x \<and> 2 * length x + 1 < 2 ^ 31
            \<and> mxCalloc h (length (latin2utf_bytes x) + 1) \<longrightarrow>
            bind_item h cfg iParam item =
              engine h (sqlite3_bind_text (iParam + 1) (Some (latin2utf_bytes x @ [0]))))
       \<and> (mxGetClassID item \<in> {mxCELL_CLASS, mxSTRUCT_CLASS} \<longrightarrow>
            bind_item h cfg iParam item = Inl MSG_UNSUPPVARTYPE)
       \<and> (mxGetClassID item \<in> {mxINT64_CLASS, mxUINT64_CLASS, mxUNKNOWN_CLASS, mxVOID_CLASS,
              mxFUNCTION_CLASS, mxOPAQUE_CLASS, mxOBJECT_CLASS} \<longrightarrow>
            bind_item h cfg iParam item = Inl MSG_INVALIDARG)
       \<and> engine h call = (if sqlite3_bind h call then Inr call else Inl SQL_ERR)"
proof -
  have sc: "bind_item h cfg iParam item = bind_scalar h cfg iParam item"
    if "mxGetClassID item \<notin> {mxCELL_CLASS, mxSTRUCT_CLASS}"
    using assms that by (intro bind_item_scalar) (auto simp: mxIsCell_def mxIsStruct_def)
  have ints: "bind_item h cfg iParam item =
      engine h (sqlite3_bind_int (iParam + 1) (Int_of_double (mxGetScalar item)))"
    if "mxGetClassID item \<in> {mxLOGICAL_CLASS, mxINT8_CLASS, mxUINT8_CLASS, mxINT16_CLASS,
              mxINT32_CLASS, mxUINT16_CLASS, mxUINT32_CLASS}"
    using that sc by (auto simp: bind_scalar_def)
  have floats: "bind_item h cfg iParam item =
      engine h (sqlite3_bind_double (iParam + 1) (mxGetScalar item))"
    if "mxGetClassID item \<in> {mxDOUBLE_CLASS, mxSINGLE_CLASS}"
    using that sc by (auto simp: bind_scalar_def)
  have plain: "bind_item h cfg iParam item =
      engine h (sqlite3_bind_text (iParam + 1) (mxArrayToString item))"
    if "mxGetClassID item = mxCHAR_CLASS" "\<not> convertUTF8 cfg"
    using that sc by (simp add: bind_scalar_def bind_text_value_plain)
  have utf: "bind_item h cfg iParam item =
      engine h (sqlite3_bind_text (iParam + 1) (Some (latin2utf_bytes x @ [0])))"
    if "mxGetClassID item = mxCHAR_CLASS" "convertUTF8 cfg"
      "mxArrayToString item = Some (x @ [0])" "0 \<notin> set x" "2 * length x + 1 < 2 ^ 31"
      "mxCalloc h (length (latin2utf_bytes x) + 1)"
    using that(1,3) sc bind_text_value_utf[OF that(2,4,5,6)]
    by (simp add: bind_scalar_def)
  have nested: "bind_item h cfg iParam item = Inl MSG_UNSUPPVARTYPE"
    if "mxGetClassID item \<in> {mxCELL_CLASS, mxSTRUCT_CLASS}"
    using that by (auto simp: bind_item_def mxIsCell_def mxIsStruct_def)
  have other: "bind_item h cfg iParam item = Inl MSG_INVALIDARG"
    if "mxGetClassID item \<in> {mxINT64_CLASS, mxUINT64_CLASS, mxUNKNOWN_CLASS, mxVOID_CLASS,
              mxFUNCTION_CLASS, mxOPAQUE_CLASS, mxOBJECT_CLASS}"
  proof -
    have "bind_scalar h cfg iParam item = Inl MSG_INVALIDARG"
      using that by (intro bind_scalar_other[OF refl]) auto
    moreover have "mxGetClassID item \<notin> {mxCELL_CLASS, mxSTRUCT_CLASS}" using that by auto
    ultimately show ?thesis using sc by simp
  qed
  have eng: "engine h call = (if sqlite3_bind h call then Inr call else Inl SQL_ERR)"
    by (simp add: engine_def)
  from ints floats plain utf nested other eng show ?thesis by blast
qed

theorem scalar_dispatch_witness:
  "bind_item pcwin initial_config 2
       (MxArray mxUINT16_CLASS [1, 1] False [7, 0] None []) =
     Inr (sqlite3_bind_int 3 (Int_of_double (Double_of_first_element mxUINT16_CLASS [7, 0])))
   \<and> bind_item pcwin initial_config 0
       (MxArray mxSINGLE_CLASS [1, 1] False [0, 0, 128, 63] None []) =
     Inr (sqlite3_bind_double 1 (Double_of_first_element mxSINGLE_CLASS [0, 0, 128, 63]))
   \<and> bind_item pcwin initial_config 0
       (MxArray mxCHAR_CLASS [1, 2] False [65, 0, 233, 0] (Some [65, 233, 0]) []) =
     Inr (sqlite3_bind_text 1 (Some [65, 195, 169, 0]))
   \<and> bind_item pcwin initial_config 0
       (MxArray mxFUNCTION_CLASS [1, 1] False [] None []) = Inl MSG_INVALIDARG"
proof -
  let ?i = "MxArray mxUINT16_CLASS [1, 1] False [7, 0] None []"
  let ?f = "MxArray mxSINGLE_CLASS [1, 1] False [0, 0, 128, 63] None []"
  let ?t = "MxArray mxCHAR_CLASS [1, 2] False [65, 0, 233, 0] (Some [65, 233, 0]) []"
  let ?o = "MxArray mxFUNCTION_CLASS [1, 1] False [] None []"
  have e: "engine pcwin call = Inr call" for call
    by (simp add: engine_def pcwin_def)
  have i: "\<not> mxIsComplex ?i" "mxGetNumberOfElements ?i = 1 \<or> mxGetClassID ?i = mxCHAR_CLASS"
    by (simp_all add: mxGetNumberOfElements_def)
  have f: "\<not> mxIsComplex ?f" "mxGetNumberOfElements ?f = 1 \<or> mxGetClassID ?f = mxCHAR_CLASS"
    by (simp_all add: mxGetNumberOfElements_def)
  have t: "\<not> mxIsComplex ?t" "mxGetNumberOfElements ?t = 1 \<or> mxGetClassID ?t = mxCHAR_CLASS"
    by (simp_all add: mxGetNumberOfElements_def)
  have o: "\<not> mxIsComplex ?o" "mxGetNumberOfElements ?o = 1 \<or> mxGetClassID ?o = mxCHAR_CLASS"
    by (simp_all add: mxGetNumberOfElements_def)
  have tx: "mxGetClassID ?t = mxCHAR_CLASS \<and> convertUTF8 initial_config
      \<and> mxArrayToString ?t = Some ([65, 233] @ [0]) \<and> 0 \<notin> set [65, 233 :: byte]
      \<and> 2 * length [65, 233 :: byte] + 1 < 2 ^ 31
      \<and> mxCalloc pcwin (length (latin2utf_bytes [65, 233]) + 1)"
    by (simp add: initial_config_def pcwin_def)
  have lb: "latin2utf_bytes [65, 233] @ [0] = [65, 195, 169, 0]"
    by code_simp
  have "bind_item pcwin initial_config 2 ?i =
      Inr (sqlite3_bind_int 3 (Int_of_double (Double_of_first_element mxUINT16_CLASS [7, 0])))"
    using scalar_dispatch[OF i, where h = pcwin and cfg = initial_config and iParam = 2]
    by (simp add: e mxGetScalar_def)
  moreover have "bind_item pcwin initial_config 0 ?f =
      Inr (sqlite3_bind_double 1 (Double_of_first_element mxSINGLE_CLASS [0, 0, 128, 63]))"
    using scalar_dispatch[OF f, where h = pcwin and cfg = initial_config and iParam = 0]
    by (simp add: e mxGetScalar_def)
  moreover have "bind_item pcwin initial_config 0 ?t = Inr (sqlite3_bind_text 1 (Some [65, 195, 169, 0]))"
    using scalar_dispatch[OF t, where h = pcwin and cfg = initial_config and iParam = 0
        and x = "[65, 233]"] tx
    by (simp only: e lb) simp
  moreover have "bind_item pcwin initial_config 0 ?o = Inl MSG_INVALIDARG"
    using scalar_dispatch[OF o, where h = pcwin and cfg = initial_config and iParam = 0]
    by simp
  ultimately show ?thesis by blast
qed

lemma engine_slot: "engine h call = Inr c \<Longrightarrow> slot_of c = slot_of call"
  by (simp add: engine_def split: if_splits)

lemma bind_scalar_slot: "bind_scalar h cfg iParam item = Inr c \<Longrightarrow> slot_of c = iParam + 1"
  unfolding bind_scalar_def
  by (cases "mxGetClassID item") (auto dest: engine_slot split: sum.splits)

lemma bind_item_slot: "bind_item h cfg iParam item = Inr c \<Longrightarrow> slot_of c = iParam + 1"
  unfolding bind_item_def Let_def
  by (auto dest: engine_slot bind_scalar_slot split: if_splits sum.splits)

lemma bind_loop_done: "bind_names_count \<le> iParam \<Longrightarrow> bind_loop h cfg pArgs bind_names_count iParam = Inr []"
  by (simp add: bind_loop.simps[of h cfg pArgs bind_names_count iParam])

lemma bind_loop_skip:
  "iParam < bind_names_count \<Longrightarrow>
   mxGetCell pArgs iParam = None \<or> (\<exists>item. mxGetCell pArgs iParam = Some item \<and> mxIsEmpty item) \<Longrightarrow>
   bind_loop h cfg pArgs bind_names_count iParam =
     bind_loop h cfg pArgs bind_names_count (iParam + 1)"
  by (auto simp: bind_loop.simps[of h cfg pArgs bind_names_count iParam])

lemma bind_loop_bind:
  "iParam < bind_names_count \<Longrightarrow> mxGetCell pArgs iParam = Some item \<Longrightarrow> \<not> mxIsEmpty item \<Longrightarrow>
   bind_item h cfg iParam item = Inr c \<Longrightarrow>
   bind_loop h cfg pArgs bind_names_count (iParam + 1) = Inr cs \<Longrightarrow>
   bind_loop h cfg pArgs bind_names_count iParam = Inr (c # cs)"
  by (simp add: bind_loop.simps[of h cfg pArgs bind_names_count iParam])

text \<open>
  When every cell that is there and not empty can be bound, the loop from \<open>k\<close> on ends
  well, and its calls are those of these cells, one each.
\<close>

lemma bind_loop_ok:
  assumes "\<And>i item. k \<le> i \<Longrightarrow> i < n \<Longrightarrow> mxGetCell pArgs i = Some item \<Longrightarrow> \<not> mxIsEmpty item \<Longrightarrow>
      \<exists>c. bind_item h cfg i item = Inr c"
  shows "\<exists>calls. bind_loop h cfg pArgs n k = Inr calls
      \<and> (\<forall>c\<in>set calls. \<exists>i item. k \<le> i \<and> i < n \<and> mxGetCell pArgs i = Some item
              \<and> \<not> mxIsEmpty item \<and> bind_item h cfg i item = Inr c)
      \<and> (\<forall>i item. k \<le> i \<and> i < n \<and> mxGetCell pArgs i = Some item \<and> \<not> mxIsEmpty item \<longrightarrow>
              (\<exists>c\<in>set calls. bind_item h cfg i item = Inr c))"
  using assms
proof (induction "n - k" arbitrary: k)
  case 0
  then have "n \<le> k" by simp
  then have "bind_loop h cfg pArgs n k = Inr []" by (rule bind_loop_done)
  with \<open>n \<le> k\<close> show ?case by auto
next
  case (Suc d)
  then have kn: "k < n" and d: "d = n - (k + 1)" by simp_all
  have "\<exists>c. bind_item h cfg i item = Inr c"
    if "k + 1 \<le> i" "i < n" "mxGetCell pArgs i = Some item" "\<not> mxIsEmpty item" for i item
    using Suc.prems[of i item] that by simp
  from Suc.hyps(1)[OF d this] obtain cs where
    cs: "bind_loop h cfg pArgs n (k + 1) = Inr cs"
      "\<forall>c\<in>set cs. \<exists>i item. k + 1 \<le> i \<and> i < n \<and> mxGetCell pArgs i = Some item
              \<and> \<not> mxIsEmpty item \<and> bind_item h cfg i item = Inr c"
      "\<forall>i item. k + 1 \<le> i \<and> i < n \<and> mxGetCell pArgs i = Some item \<and> \<not> mxIsEmpty item \<longrightarrow>
              (\<exists>c\<in>set cs. bind_item h cfg i item = Inr c)"
    by blast
  show ?case
  proof (cases "mxGetCell pArgs k = None \<or> (\<exists>item. mxGetCell pArgs k = Some item \<and> mxIsEmpty item)")
    case True
    from bind_loop_skip[OF kn True] cs(1)
    have r: "bind_loop h cfg pArgs n k = Inr cs" by simp
    have a: "\<forall>c\<in>set cs. \<exists>i item. k \<le> i \<and> i < n \<and> mxGetCell pArgs i = Some item
              \<and> \<not> mxIsEmpty item \<and> bind_item h cfg i item = Inr c"
      using cs(2) by (meson add_leD1)
    have b: "\<exists>c\<in>set cs. bind_item h cfg i item = Inr c"
      if "k \<le> i" "i < n" "mxGetCell pArgs i = Some item" "\<not> mxIsEmpty item" for i item
    proof -
      from True that(3,4) have "i \<noteq> k" by auto
      with that(1) have "k + 1 \<le> i" by simp
      with cs(3) that show ?thesis by blast
    qed
    from r a b show ?thesis by blast
  next
    case False
    then obtain item where it: "mxGetCell pArgs k = Some item" "\<not> mxIsEmpty item"
      by (cases "mxGetCell pArgs k") auto
    from Suc.prems[OF _ kn it] obtain c where c: "bind_item h cfg k item = Inr c" by auto
    from bind_loop_bind[OF kn it c cs(1)]
    have r: "bind_loop h cfg pArgs n k = Inr (c # cs)" .
    have a: "\<forall>c'\<in>set (c # cs). \<exists>i item. k \<le> i \<and> i < n \<and> mxGetCell pArgs i = Some item
              \<and> \<not> mxIsEmpty item \<and> bind_item h cfg i item = Inr c'"
    proof
      fix c' assume "c' \<in> set (c # cs)"
      then consider "c' = c" | "c' \<in> set cs" by auto
      then show "\<exists>i item. k \<le> i \<and> i < n \<and> mxGetCell pArgs i = Some item
              \<and> \<not> mxIsEmpty item \<and> bind_item h cfg i item = Inr c'"
      proof cases
        case 1
        with kn it c show ?thesis by blast
      next
        case 2
        with cs(2) show ?thesis by (meson add_leD1)
      qed
    qed
    have b: "\<exists>c'\<in>set (c # cs). bind_item h cfg i item' = Inr c'"
      if "k \<le> i" "i < n" "mxGetCell pArgs i = Some item'" "\<not> mxIsEmpty item'" for i item'
    proof (cases "i = k")
      case True
      with that(3) it(1) c show ?thesis by simp
    next
      case False
      with that(1) have "k + 1 \<le> i" by simp
      with cs(3) that show ?thesis by auto
    qed
    from r a b show ?thesis by blast
  qed
qed

lemma collect_args_too_many:
  "bind_names_count < length args \<Longrightarrow> collect_args h bind_names_count args = Inl MSG_UNEXPECTEDARG"
  by (cases args) (auto simp: collect_args_def Let_def)

lemma collect_args_none_expected:
  "bind_names_count = 0 \<Longrightarrow> args \<noteq> [] \<Longrightarrow>
   collect_args h bind_names_count args = Inl MSG_UNEXPECTEDARG"
  by (simp add: collect_args_def Let_def)

lemma collect_args_two_cells:
  "mxIsCell first \<Longrightarrow> others \<noteq> [] \<Longrightarrow>
   collect_args h bind_names_count (first # others) = Inl MSG_UNEXPECTEDARG"
  by (cases others) (auto simp: collect_args_def Let_def)

lemma collect_args_one_cell:
  "mxIsCell first \<Longrightarrow> 0 < bind_names_count \<Longrightarrow> mxDuplicateArray h first \<Longrightarrow>
   collect_args h bind_names_count [first] = Inr (mxCells first)"
  by (simp add: collect_args_def Let_def)

lemma collect_args_list:
  assumes "args = [] \<or> \<not> mxIsCell (hd args)" and "length args \<le> bind_names_count"
    and "mxCreateCellMatrix h bind_names_count"
    and "\<forall>i<length args. mxDuplicateArray h (args ! i)"
  shows "\<exists>pArgs. collect_args h bind_names_count args = Inr pArgs
      \<and> (\<forall>i<length args. mxGetCell pArgs i = Some (args ! i))
      \<and> (\<forall>i. length args \<le> i \<and> i < bind_names_count \<longrightarrow>
            mxGetCell pArgs i = Some mxCreateLogicalMatrix_0_0)"
proof (cases args)
  case Nil
  with assms(3) show ?thesis
    by (simp add: collect_args_def mxGetCell_def)
next
  case (Cons first others)
  with assms(1) have nc: "\<not> mxIsCell first" by simp
  have pos: "0 < bind_names_count" using assms(2) Cons by simp
  let ?p = "map (\<lambda>i. if i < length args
                      then (if mxDuplicateArray h (args ! i) then Some (args ! i) else None)
                      else Some mxCreateLogicalMatrix_0_0) [0..<bind_names_count]"
  have "collect_args h bind_names_count (first # others) = Inr ?p"
    using nc pos assms(2,3) Cons
    by (simp add: collect_args_def Let_def del: upt_Suc)
  moreover have "\<forall>i<length args. mxGetCell ?p i = Some (args ! i)"
    using assms(2,4) by (simp add: mxGetCell_def del: upt_Suc)
  moreover have "\<forall>i. length args \<le> i \<and> i < bind_names_count \<longrightarrow>
      mxGetCell ?p i = Some mxCreateLogicalMatrix_0_0"
    by (simp add: mxGetCell_def del: upt_Suc)
  ultimately show ?thesis using Cons by blast
qed

lemma mxIsEmpty_0_0: "mxIsEmpty mxCreateLogicalMatrix_0_0"
  by (simp add: mxIsEmpty_def mxGetNumberOfElements_def mxCreateLogicalMatrix_0_0_def)

lemma bind_arguments_fewer:
  assumes "args = [] \<or> \<not> mxIsCell (hd args)" and "length args \<le> bind_names_count"
    and "mxCreateCellMatrix h bind_names_count"
    and "\<forall>i<length args. mxDuplicateArray h (args ! i)"
    and "\<forall>i<length args. \<not> mxIsEmpty (args ! i) \<longrightarrow> (\<exists>c. bind_item h cfg i (args ! i) = Inr c)"
  shows "\<exists>calls. bind_arguments h cfg bind_names_count args = Inr calls
      \<and> (\<forall>c\<in>set calls. 1 \<le> slot_of c \<and> slot_of c \<le> length args)
      \<and> (\<forall>i<length args. \<not> mxIsEmpty (args ! i) \<longrightarrow>
            (\<exists>c\<in>set calls. bind_item h cfg i (args ! i) = Inr c \<and> slot_of c = i + 1))"
proof -
  from collect_args_list[OF assms(1-4)] obtain pArgs where
    p: "collect_args h bind_names_count args = Inr pArgs"
      "\<forall>i<length args. mxGetCell pArgs i = Some (args ! i)"
      "\<forall>i. length args \<le> i \<and> i < bind_names_count \<longrightarrow>
            mxGetCell pArgs i = Some mxCreateLogicalMatrix_0_0"
    by blast
  have cell: "i < length args \<and> item = args ! i"
    if "i < bind_names_count" "mxGetCell pArgs i = Some item" "\<not> mxIsEmpty item" for i item
  proof (cases "i < length args")
    case True
    with p(2) that(2) show ?thesis by auto
  next
    case False
    with p(3) that(1,2) have "item = mxCreateLogicalMatrix_0_0" by auto
    with that(3) mxIsEmpty_0_0 show ?thesis by simp
  qed
  have "\<exists>c. bind_item h cfg i item = Inr c"
    if "0 \<le> i" "i < bind_names_count" "mxGetCell pArgs i = Some item" "\<not> mxIsEmpty item" for i item
    using cell[OF that(2-4)] assms(5) that(4) by auto
  from bind_loop_ok[of 0 bind_names_count pArgs h cfg, OF this] obtain calls where
    l: "bind_loop h cfg pArgs bind_names_count 0 = Inr calls"
      "\<forall>c\<in>set calls. \<exists>i item. 0 \<le> i \<and> i < bind_names_count \<and> mxGetCell pArgs i = Some item
              \<and> \<not> mxIsEmpty item \<and> bind_item h cfg i item = Inr c"
      "\<forall>i item. 0 \<le> i \<and> i < bind_names_count \<and> mxGetCell pArgs i = Some item \<and> \<not> mxIsEmpty item \<longrightarrow>
              (\<exists>c\<in>set calls. bind_item h cfg i item = Inr c)"
    by blast
  have r: "bind_arguments h cfg bind_names_count args = Inr calls"
    by (simp add: bind_arguments_def p(1) l(1))
  have a: "1 \<le> slot_of c \<and> slot_of c \<le> length args" if "c \<in> set calls" for c
  proof -
    from l(2) that obtain i item where
      i: "i < bind_names_count" "mxGetCell pArgs i = Some item" "\<not> mxIsEmpty item"
        "bind_item h cfg i item = Inr c"
      by blast
    from cell[OF i(1-3)] bind_item_slot[OF i(4)] show ?thesis by simp
  qed
  have b: "\<exists>c\<in>set calls. bind_item h cfg i (args ! i) = Inr c \<and> slot_of c = i + 1"
    if ia: "i < length args" "\<not> mxIsEmpty (args ! i)" for i
  proof -
    have "i < bind_names_count" using ia(1) assms(2) by simp
    moreover have "mxGetCell pArgs i = Some (args ! i)" using p(2) ia(1) by simp
    ultimately obtain c where "c \<in> set calls" "bind_item h cfg i (args ! i) = Inr c"
      using l(3) ia(2) by blast
    with bind_item_slot[of h cfg i "args ! i" c] show ?thesis by blast
  qed
  from r a b show ?thesis by blast
qed

text \<open>
  C6. Arity of the binding, for a statement with \<open>bind_names_count\<close> placeholders and
  the values \<open>args\<close>. Without placeholders any value ends the call with
  \<open>MSG_UNEXPECTEDARG\<close>, and so do more values than placeholders. Values given one by
  one (the first is not a cell), not more than the placeholders, each copied and each
  either empty or bound by its round of the loop: the call ends well, every call to
  the engine names a slot between 1 and the number of values, and each value that is
  not empty is bound to the slot of its position; no call names a later slot, which
  the engine then reads as NULL. A cell as first value is taken alone: followed by
  another value it ends the call with \<open>MSG_UNEXPECTEDARG\<close>, alone its cells are the
  parameters.
\<close>

theorem binding_arity:
  "(bind_names_count = 0 \<and> args \<noteq> [] \<longrightarrow>
      bind_arguments h cfg bind_names_count args = Inl MSG_UNEXPECTEDARG)
   \<and> (bind_names_count < length args \<longrightarrow>
      bind_arguments h cfg bind_names_count args = Inl MSG_UNEXPECTEDARG)
   \<and> ((args = [] \<or> \<not> mxIsCell (hd args)) \<and> length args \<le> bind_names_count
        \<and> mxCreateCellMatrix h bind_names_count
        \<and> (\<forall>i<length args. mxDuplicateArray h (args ! i))
        \<and> (\<forall>i<length args. \<not> mxIsEmpty (args ! i) \<longrightarrow>
              (\<exists>c. bind_item h cfg i (args ! i) = Inr c)) \<longrightarrow>
      (\<exists>calls. bind_arguments h cfg bind_names_count args = Inr calls
         \<and> (\<forall>c\<in>set calls. 1 \<le> slot_of c \<and> slot_of c \<le> length args)
         \<and> (\<forall>i<length args. \<not> mxIsEmpty (args ! i) \<longrightarrow>
               (\<exists>c\<in>set calls. bind_item h cfg i (args ! i) = Inr c \<and> slot_of c = i + 1))))
   \<and> (mxIsCell first \<and> others \<noteq> [] \<longrightarrow>
      bind_arguments h cfg bind_names_count (first # others) = Inl MSG_UNEXPECTEDARG)
   \<and> (mxIsCell first \<and> 0 < bind_names_count \<and> mxDuplicateArray h first \<longrightarrow>
      collect_args h bind_names_count [first] = Inr (mxCells first)
      \<and> bind_arguments h cfg bind_names_count [first] =
          bind_loop h cfg (mxCells first) bind_names_count 0)"
proof -
  have none: "bind_arguments h cfg bind_names_count args = Inl MSG_UNEXPECTEDARG"
    if "bind_names_count = 0" "args \<noteq> []"
    using collect_args_none_expected[OF that, of h] by (simp add: bind_arguments_def)
  have many: "bind_arguments h cfg bind_names_count args = Inl MSG_UNEXPECTEDARG"
    if "bind_names_count < length args"
    using collect_args_too_many[OF that, of h] by (simp add: bind_arguments_def)
  have two: "bind_arguments h cfg bind_names_count (first # others) = Inl MSG_UNEXPECTEDARG"
    if "mxIsCell first" "others \<noteq> []"
    using collect_args_two_cells[OF that, of h bind_names_count] by (simp add: bind_arguments_def)
  have one: "collect_args h bind_names_count [first] = Inr (mxCells first)
      \<and> bind_arguments h cfg bind_names_count [first] =
          bind_loop h cfg (mxCells first) bind_names_count 0"
    if "mxIsCell first" "0 < bind_names_count" "mxDuplicateArray h first"
    using collect_args_one_cell[OF that] by (simp add: bind_arguments_def)
  have fewer: "\<exists>calls. bind_arguments h cfg bind_names_count args = Inr calls
         \<and> (\<forall>c\<in>set calls. 1 \<le> slot_of c \<and> slot_of c \<le> length args)
         \<and> (\<forall>i<length args. \<not> mxIsEmpty (args ! i) \<longrightarrow>
               (\<exists>c\<in>set calls. bind_item h cfg i (args ! i) = Inr c \<and> slot_of c = i + 1))"
    if "args = [] \<or> \<not> mxIsCell (hd args)" "length args \<le> bind_names_count"
      "mxCreateCellMatrix h bind_names_count"
      "\<forall>i<length args. mxDuplicateArray h (args ! i)"
      "\<forall>i<length args. \<not> mxIsEmpty (args ! i) \<longrightarrow> (\<exists>c. bind_item h cfg i (args ! i) = Inr c)"
    using that by (rule bind_arguments_fewer)
  from none many two one fewer show ?thesis by blast
qed

theorem binding_arity_witness:
  "bind_arguments pcwin initial_config 2
       [MxArray mxINT32_CLASS [1, 1] False [5, 0, 0, 0] None [],
        MxArray mxINT32_CLASS [1, 1] False [6, 0, 0, 0] None [],
        MxArray mxINT32_CLASS [1, 1] False [7, 0, 0, 0] None []] = Inl MSG_UNEXPECTEDARG
   \<and> bind_arguments pcwin initial_config 0
       [MxArray mxINT32_CLASS [1, 1] False [5, 0, 0, 0] None []] = Inl MSG_UNEXPECTEDARG
   \<and> bind_arguments pcwin initial_config 2
       [MxArray mxINT32_CLASS [1, 1] False [5, 0, 0, 0] None []] =
     Inr [sqlite3_bind_int 1 (Int_of_double (Double_of_first_element mxINT32_CLASS [5, 0, 0, 0]))]
   \<and> (\<exists>calls. bind_arguments pcwin initial_config 2
           [MxArray mxINT32_CLASS [1, 1] False [5, 0, 0, 0] None []] = Inr calls
         \<and> list_all (\<lambda>c. 1 \<le> slot_of c \<and> slot_of c \<le> 1) calls)
   \<and> bind_arguments pcwin initial_config 2
       [MxArray mxCELL_CLASS [1, 1] False [] None
          [Some (MxArray mxINT32_CLASS [1, 1] False [5, 0, 0, 0] None [])],
        MxArray mxINT32_CLASS [1, 1] False [6, 0, 0, 0] None []] = Inl MSG_UNEXPECTEDARG
   \<and> bind_arguments pcwin initial_config 2
       [MxArray mxCELL_CLASS [1, 1] False [] None
          [Some (MxArray mxINT32_CLASS [1, 1] False [5, 0, 0, 0] None [])]] =
     Inr [sqlite3_bind_int 1 (Int_of_double (Double_of_first_element mxINT32_CLASS [5, 0, 0, 0]))]"
proof -
  let ?a = "MxArray mxINT32_CLASS [1, 1] False [5, 0, 0, 0] None []"
  let ?b = "MxArray mxINT32_CLASS [1, 1] False [6, 0, 0, 0] None []"
  let ?c = "MxArray mxINT32_CLASS [1, 1] False [7, 0, 0, 0] None []"
  let ?cell = "MxArray mxCELL_CLASS [1, 1] False [] None [Some ?a]"
  let ?call = "sqlite3_bind_int 1 (Int_of_double (Double_of_first_element mxINT32_CLASS [5, 0, 0, 0]))"
  have bi: "bind_item pcwin initial_config 0 ?a = Inr ?call"
    by code_simp
  have pre: "([?a] = [] \<or> \<not> mxIsCell (hd [?a])) \<and> length [?a] \<le> (2 :: nat)
        \<and> mxCreateCellMatrix pcwin 2
        \<and> (\<forall>i<length [?a]. mxDuplicateArray pcwin ([?a] ! i))
        \<and> (\<forall>i<length [?a]. \<not> mxIsEmpty ([?a] ! i) \<longrightarrow>
              (\<exists>c. bind_item pcwin initial_config i ([?a] ! i) = Inr c))"
    using bi by (simp add: mxIsCell_def pcwin_def)
  have cl: "mxIsCell ?cell \<and> [?b] \<noteq> []" by (simp add: mxIsCell_def)
  have cl1: "mxIsCell ?cell \<and> (0 :: nat) < 2 \<and> mxDuplicateArray pcwin ?cell"
    by (simp add: mxIsCell_def pcwin_def)
  have loop: "bind_loop pcwin initial_config (mxCells ?cell) 2 0 = Inr [?call]"
    by code_simp
  have run: "bind_arguments pcwin initial_config 2 [?a] = Inr [?call]"
    by code_simp
  have "bind_arguments pcwin initial_config 2 [?a, ?b, ?c] = Inl MSG_UNEXPECTEDARG"
    using binding_arity[where h = pcwin and cfg = initial_config and bind_names_count = 2
        and args = "[?a, ?b, ?c]"]
    by simp
  moreover have "bind_arguments pcwin initial_config 0 [?a] = Inl MSG_UNEXPECTEDARG"
    using binding_arity[where h = pcwin and cfg = initial_config and bind_names_count = 0
        and args = "[?a]"]
    by simp
  moreover have "\<exists>calls. bind_arguments pcwin initial_config 2 [?a] = Inr calls
         \<and> list_all (\<lambda>c. 1 \<le> slot_of c \<and> slot_of c \<le> 1) calls"
  proof -
    from binding_arity[where h = pcwin and cfg = initial_config and bind_names_count = 2
        and args = "[?a]"] pre
    obtain calls where "bind_arguments pcwin initial_config 2 [?a] = Inr calls"
      "\<forall>c\<in>set calls. 1 \<le> slot_of c \<and> slot_of c \<le> length [?a]"
      by blast
    then show ?thesis by (auto simp: list_all_iff)
  qed
  moreover have "bind_arguments pcwin initial_config 2 [?cell, ?b] = Inl MSG_UNEXPECTEDARG"
    using binding_arity[where h = pcwin and cfg = initial_config and bind_names_count = 2
        and first = ?cell and others = "[?b]"] cl
    by blast
  moreover have "bind_arguments pcwin initial_config 2 [?cell] = Inr [?call]"
    using binding_arity[where h = pcwin and cfg = initial_config and bind_names_count = 2
        and first = ?cell] cl1 loop
    by (simp only:)
  ultimately show ?thesis using run by blast
qed

end
